theory Spec2Isabelle
  imports Main "HOL-Library.Word" "HOL-Library.Signed_Division" "HOL-Library.Monad_Syntax"
begin

unbundle bit_operations_syntax

section \<open>Data model\<close>

text \<open>
  The Go package \<^verbatim>\<open>bitset\<close> stores a set of \<^verbatim>\<open>uint32\<close> bit indices either in a
  single \<^verbatim>\<open>uint64\<close> (type \<^verbatim>\<open>bitSet64\<close>) or in a slice of \<^verbatim>\<open>uint64\<close> words
  (type \<^verbatim>\<open>largeBitSet\<close>). The interface \<^verbatim>\<open>Set\<close> is implemented by exactly these
  two types, the interface \<^verbatim>\<open>Builder\<close> by \<^verbatim>\<open>bitSet64\<close> and \<^verbatim>\<open>bitSetBuilder\<close>.
  A slice is modelled by the list of its elements; every slice that the package
  stores was made by \<^verbatim>\<open>make([]uint64, n)\<close>, so its capacity is its length.
\<close>

type_synonym uint64 = "64 word"
type_synonym uint32 = "32 word"

datatype Set = bitSet64 uint64 | largeBitSet "uint64 list"

datatype Builder = bitSet64_Builder uint64 | bitSetBuilder "uint64 list"

section \<open>Go primitives, with their run-time panics\<close>

text \<open>A panic is the result \<open>None\<close>.\<close>

definition go_index :: "'a list \<Rightarrow> int \<Rightarrow> 'a option" where
  "go_index b i = (if 0 \<le> i \<and> i < int (length b) then Some (b ! nat i) else None)"

definition go_assign :: "'a list \<Rightarrow> int \<Rightarrow> 'a \<Rightarrow> 'a list option" where
  "go_assign b i v = (if 0 \<le> i \<and> i < int (length b) then Some (b[nat i := v]) else None)"

definition go_make :: "int \<Rightarrow> uint64 list option" where
  "go_make n = (if 0 \<le> n then Some (replicate (nat n) 0) else None)"

definition go_copy :: "'a list \<Rightarrow> 'a list \<Rightarrow> 'a list" where
  "go_copy dst src = take (min (length dst) (length src)) src @ drop (min (length dst) (length src)) dst"

definition go_slice_to :: "'a list \<Rightarrow> int \<Rightarrow> 'a list option" where
  "go_slice_to b n = (if 0 \<le> n \<and> n \<le> int (length b) then Some (take (nat n) b) else None)"

text \<open>\<^verbatim>\<open>1 << s\<close> at type \<^verbatim>\<open>uint64\<close> with a \<^verbatim>\<open>uint32\<close> shift count.\<close>

definition shl1 :: "uint32 \<Rightarrow> uint64" where
  "shl1 s = push_bit (unat s) 1"

section \<open>Small sets: \<^verbatim>\<open>bitSet64\<close>\<close>

definition bitSet64_Has :: "uint64 \<Rightarrow> uint32 \<Rightarrow> bool option" where
  "bitSet64_Has b bitIndex =
     (if bitIndex \<ge> 64 then Some False
      else Some (b AND shl1 bitIndex \<noteq> 0))"

definition bitSet64_Add :: "uint64 \<Rightarrow> uint32 \<Rightarrow> Set option" where
  "bitSet64_Add b bitIndex =
     (if bitIndex < 64 then Some (bitSet64 (b OR shl1 bitIndex))
      else
        (let idx = uint (bitIndex div 64) in
         do {
           newBits \<leftarrow> go_make (idx + 1);
           newBits \<leftarrow> go_assign newBits 0 b;
           w \<leftarrow> go_index newBits idx;
           newBits \<leftarrow> go_assign newBits idx (w OR shl1 (bitIndex mod 64));
           Some (largeBitSet newBits)
         }))"

definition bitSet64_Remove :: "uint64 \<Rightarrow> uint32 \<Rightarrow> Set option" where
  "bitSet64_Remove b bitIndex =
     (if bitIndex \<ge> 64 then Some (bitSet64 b)
      else Some (bitSet64 (b AND NOT (shl1 bitIndex))))"

section \<open>Large sets: \<^verbatim>\<open>largeBitSet\<close>\<close>

definition largeBitSet_Has :: "uint64 list \<Rightarrow> uint32 \<Rightarrow> bool option" where
  "largeBitSet_Has b bitIndex =
     (let idx = uint (bitIndex div 64) in
      if idx \<ge> int (length b) then Some False
      else do {
        w \<leftarrow> go_index b idx;
        Some (w AND shl1 (bitIndex mod 64) \<noteq> 0)
      })"

definition largeBitSet_Add :: "uint64 list \<Rightarrow> uint32 \<Rightarrow> Set option" where
  "largeBitSet_Add b bitIndex =
     (let idx = uint (bitIndex div 64) in
      do {
        newBits \<leftarrow> go_make (max (int (length b)) (idx + 1));
        newBits \<leftarrow> Some (go_copy newBits b);
        w \<leftarrow> go_index newBits idx;
        newBits \<leftarrow> go_assign newBits idx (w OR shl1 (bitIndex mod 64));
        Some (largeBitSet newBits)
      })"

text \<open>
  The loop of \<^verbatim>\<open>largeBitSet.Remove\<close>:
  \<^verbatim>\<open>for lastIdx >= 0 && (b[lastIdx] == 0 || (lastIdx == idx && b[lastIdx] == 1<<(bitIndex%64))) { lastIdx-- }\<close>
\<close>

function Remove_scan :: "uint64 list \<Rightarrow> int \<Rightarrow> uint32 \<Rightarrow> int \<Rightarrow> int option" where
  "Remove_scan b idx bitIndex lastIdx =
     (if lastIdx \<ge> 0 then
        (case go_index b lastIdx of
           None \<Rightarrow> None
         | Some w \<Rightarrow>
             if w = 0 \<or> (lastIdx = idx \<and> w = shl1 (bitIndex mod 64))
             then Remove_scan b idx bitIndex (lastIdx - 1)
             else Some lastIdx)
      else Some lastIdx)"
  by pat_completeness auto
termination
  by (relation "measure (\<lambda>(b, idx, bitIndex, lastIdx). nat (lastIdx + 1))") auto

definition largeBitSet_Remove :: "uint64 list \<Rightarrow> uint32 \<Rightarrow> Set option" where
  "largeBitSet_Remove b bitIndex =
     (let idx = uint (bitIndex div 64) in
      if idx \<ge> int (length b) then Some (largeBitSet b)
      else do {
        lastIdx \<leftarrow> Remove_scan b idx bitIndex (int (length b) - 1);
        if lastIdx \<le> 0 then do {
          b0 \<leftarrow> go_index b 0;
          Some (bitSet64 (if b0 \<noteq> 0 \<and> idx = 0 then b0 AND NOT (shl1 bitIndex) else b0))
        } else do {
          bits \<leftarrow> go_slice_to b (lastIdx + 1);
          newBits \<leftarrow> go_make (int (length bits));
          newBits \<leftarrow> Some (go_copy newBits bits);
          if idx < int (length newBits) then do {
            w \<leftarrow> go_index newBits idx;
            newBits \<leftarrow> go_assign newBits idx (w AND NOT (shl1 (bitIndex mod 64)));
            Some (largeBitSet newBits)
          } else Some (largeBitSet newBits)
        }
      })"

section \<open>The interface \<^verbatim>\<open>Set\<close>\<close>

definition New :: Set where
  "New = bitSet64 0"

fun Has :: "Set \<Rightarrow> uint32 \<Rightarrow> bool option" where
  "Has (bitSet64 b) bitIndex = bitSet64_Has b bitIndex"
| "Has (largeBitSet b) bitIndex = largeBitSet_Has b bitIndex"

fun Add :: "Set \<Rightarrow> uint32 \<Rightarrow> Set option" where
  "Add (bitSet64 b) bitIndex = bitSet64_Add b bitIndex"
| "Add (largeBitSet b) bitIndex = largeBitSet_Add b bitIndex"

fun Remove :: "Set \<Rightarrow> uint32 \<Rightarrow> Set option" where
  "Remove (bitSet64 b) bitIndex = bitSet64_Remove b bitIndex"
| "Remove (largeBitSet b) bitIndex = largeBitSet_Remove b bitIndex"

section \<open>The interface \<^verbatim>\<open>Builder\<close>\<close>

text \<open>
  \<^verbatim>\<open>bitSet64.With\<close> adds the bit and asserts the dynamic type of the result; a failed
  type assertion panics.
\<close>

definition bitSet64_With :: "uint64 \<Rightarrow> uint32 \<Rightarrow> Builder option" where
  "bitSet64_With b bitIndex =
     do {
       s \<leftarrow> bitSet64_Add b bitIndex;
       if bitIndex < 64 then
         (case s of bitSet64 w \<Rightarrow> Some (bitSet64_Builder w) | largeBitSet ws \<Rightarrow> None)
       else
         (case s of largeBitSet ws \<Rightarrow> Some (bitSetBuilder ws) | bitSet64 w \<Rightarrow> None)
     }"

text \<open>
  \<^verbatim>\<open>bitSetBuilder.With\<close> writes into its own slice when the slot exists (the builder
  that it returns is the slice after the write) and grows through
  \<^verbatim>\<open>largeBitSet.Add\<close> otherwise.
\<close>

definition bitSetBuilder_With :: "uint64 list \<Rightarrow> uint32 \<Rightarrow> Builder option" where
  "bitSetBuilder_With b bitIndex =
     (let idx = uint (bitIndex div 64) in
      if idx < int (length b) then do {
        w \<leftarrow> go_index b idx;
        b \<leftarrow> go_assign b idx (w OR shl1 (bitIndex mod 64));
        Some (bitSetBuilder b)
      } else do {
        s \<leftarrow> largeBitSet_Add b bitIndex;
        (case s of largeBitSet ws \<Rightarrow> Some (bitSetBuilder ws) | bitSet64 w \<Rightarrow> None)
      })"

fun With :: "Builder \<Rightarrow> uint32 \<Rightarrow> Builder option" where
  "With (bitSet64_Builder b) bitIndex = bitSet64_With b bitIndex"
| "With (bitSetBuilder b) bitIndex = bitSetBuilder_With b bitIndex"

text \<open>
  Both \<^verbatim>\<open>WithMany\<close> methods run the same loop,
  \<^verbatim>\<open>for _, i := range bitIndices { bld = bld.With(i) }\<close>, from the receiver.
\<close>

fun WithMany :: "Builder \<Rightarrow> uint32 list \<Rightarrow> Builder option" where
  "WithMany bld [] = Some bld"
| "WithMany bld (i # bitIndices) = do { bld \<leftarrow> With bld i; WithMany bld bitIndices }"

fun Build :: "Builder \<Rightarrow> Set" where
  "Build (bitSet64_Builder b) = bitSet64 b"
| "Build (bitSetBuilder b) = largeBitSet b"

text \<open>
  \<^verbatim>\<open>NewBuilder(minCapacity int)\<close>, with Go's \<^verbatim>\<open>int\<close> at 64 bits: the sum
  \<^verbatim>\<open>minCapacity+63\<close> wraps around, the division truncates, and \<^verbatim>\<open>make\<close> panics on a
  negative length. Exhausted memory and the allocator's limit on the length of a
  slice are not modelled.
\<close>

definition NewBuilder :: "64 word \<Rightarrow> Builder option" where
  "NewBuilder minCapacity =
     (if sint minCapacity \<le> 64 then Some (bitSet64_Builder 0)
      else do {
        bits \<leftarrow> go_make (sint (minCapacity + 63) sdiv 64);
        Some (bitSetBuilder bits)
      })"

section \<open>Backing arrays in a store\<close>

text \<open>
  To state that an operation leaves its receiver alone, the operations on slices are
  written a second time over a store: the list of the backing arrays allocated so far.
  A stored slice is the position of its array and spans it; the local \<^verbatim>\<open>bits\<close> of
  \<^verbatim>\<open>Remove\<close> is a position with a shorter length. Every statement that allocates,
  reads or writes names the array it works on: \<^verbatim>\<open>make\<close> appends a new array,
  \<^verbatim>\<open>copy(dst, src)\<close> and \<^verbatim>\<open>b[i] = v\<close> replace the array at the position of their
  target, and a position that is not allocated is a panic.
\<close>

type_synonym store = "uint64 list list"

datatype SetV = bitSet64V uint64 | largeBitSetV nat

definition deref :: "store \<Rightarrow> nat \<Rightarrow> uint64 list option" where
  "deref h a = (if a < length h then Some (h ! a) else None)"

definition st_len :: "store \<Rightarrow> nat \<Rightarrow> int option" where
  "st_len h a = do { b \<leftarrow> deref h a; Some (int (length b)) }"

definition st_make :: "store \<Rightarrow> int \<Rightarrow> (nat \<times> store) option" where
  "st_make h n = do { newBits \<leftarrow> go_make n; Some (length h, h @ [newBits]) }"

definition st_index :: "store \<Rightarrow> nat \<Rightarrow> int \<Rightarrow> uint64 option" where
  "st_index h a i = do { b \<leftarrow> deref h a; go_index b i }"

definition st_assign :: "store \<Rightarrow> nat \<Rightarrow> int \<Rightarrow> uint64 \<Rightarrow> store option" where
  "st_assign h a i v = do { b \<leftarrow> deref h a; b \<leftarrow> go_assign b i v; Some (h[a := b]) }"

definition st_slice_to :: "store \<Rightarrow> nat \<Rightarrow> int \<Rightarrow> (nat \<times> nat) option" where
  "st_slice_to h a n = do { b \<leftarrow> deref h a; bits \<leftarrow> go_slice_to b n; Some (a, length bits) }"

definition st_copy :: "store \<Rightarrow> nat \<Rightarrow> nat \<times> nat \<Rightarrow> store option" where
  "st_copy h dst src =
     do {
       d \<leftarrow> deref h dst;
       s \<leftarrow> deref h (fst src);
       Some (h[dst := go_copy d (take (snd src) s)])
     }"

definition bitSet64_Add_st :: "store \<Rightarrow> uint64 \<Rightarrow> uint32 \<Rightarrow> (SetV \<times> store) option" where
  "bitSet64_Add_st h b bitIndex =
     (if bitIndex < 64 then Some (bitSet64V (b OR shl1 bitIndex), h)
      else
        (let idx = uint (bitIndex div 64) in
         do {
           (newBits, h) \<leftarrow> st_make h (idx + 1);
           h \<leftarrow> st_assign h newBits 0 b;
           w \<leftarrow> st_index h newBits idx;
           h \<leftarrow> st_assign h newBits idx (w OR shl1 (bitIndex mod 64));
           Some (largeBitSetV newBits, h)
         }))"

definition bitSet64_Remove_st :: "store \<Rightarrow> uint64 \<Rightarrow> uint32 \<Rightarrow> (SetV \<times> store) option" where
  "bitSet64_Remove_st h b bitIndex =
     (if bitIndex \<ge> 64 then Some (bitSet64V b, h)
      else Some (bitSet64V (b AND NOT (shl1 bitIndex)), h))"

definition largeBitSet_Has_st :: "store \<Rightarrow> nat \<Rightarrow> uint32 \<Rightarrow> bool option" where
  "largeBitSet_Has_st h b bitIndex =
     (let idx = uint (bitIndex div 64) in
      do {
        n \<leftarrow> st_len h b;
        if idx \<ge> n then Some False
        else do {
          w \<leftarrow> st_index h b idx;
          Some (w AND shl1 (bitIndex mod 64) \<noteq> 0)
        }
      })"

definition largeBitSet_Add_st :: "store \<Rightarrow> nat \<Rightarrow> uint32 \<Rightarrow> (SetV \<times> store) option" where
  "largeBitSet_Add_st h b bitIndex =
     (let idx = uint (bitIndex div 64) in
      do {
        n \<leftarrow> st_len h b;
        (newBits, h) \<leftarrow> st_make h (max n (idx + 1));
        h \<leftarrow> st_copy h newBits (b, nat n);
        w \<leftarrow> st_index h newBits idx;
        h \<leftarrow> st_assign h newBits idx (w OR shl1 (bitIndex mod 64));
        Some (largeBitSetV newBits, h)
      })"

function Remove_scan_st :: "store \<Rightarrow> nat \<Rightarrow> int \<Rightarrow> uint32 \<Rightarrow> int \<Rightarrow> int option" where
  "Remove_scan_st h b idx bitIndex lastIdx =
     (if lastIdx \<ge> 0 then
        (case st_index h b lastIdx of
           None \<Rightarrow> None
         | Some w \<Rightarrow>
             if w = 0 \<or> (lastIdx = idx \<and> w = shl1 (bitIndex mod 64))
             then Remove_scan_st h b idx bitIndex (lastIdx - 1)
             else Some lastIdx)
      else Some lastIdx)"
  by pat_completeness auto
termination
  by (relation "measure (\<lambda>(h, b, idx, bitIndex, lastIdx). nat (lastIdx + 1))") auto

definition largeBitSet_Remove_st :: "store \<Rightarrow> nat \<Rightarrow> uint32 \<Rightarrow> (SetV \<times> store) option" where
  "largeBitSet_Remove_st h b bitIndex =
     (let idx = uint (bitIndex div 64) in
      do {
        n \<leftarrow> st_len h b;
        if idx \<ge> n then Some (largeBitSetV b, h)
        else do {
          lastIdx \<leftarrow> Remove_scan_st h b idx bitIndex (n - 1);
          if lastIdx \<le> 0 then do {
            b0 \<leftarrow> st_index h b 0;
            Some (bitSet64V (if b0 \<noteq> 0 \<and> idx = 0 then b0 AND NOT (shl1 bitIndex) else b0), h)
          } else do {
            bits \<leftarrow> st_slice_to h b (lastIdx + 1);
            (newBits, h) \<leftarrow> st_make h (int (snd bits));
            h \<leftarrow> st_copy h newBits bits;
            m \<leftarrow> st_len h newBits;
            if idx < m then do {
              w \<leftarrow> st_index h newBits idx;
              h \<leftarrow> st_assign h newBits idx (w AND NOT (shl1 (bitIndex mod 64)));
              Some (largeBitSetV newBits, h)
            } else Some (largeBitSetV newBits, h)
          }
        }
      })"

fun Has_st :: "store \<Rightarrow> SetV \<Rightarrow> uint32 \<Rightarrow> bool option" where
  "Has_st h (bitSet64V b) bitIndex = bitSet64_Has b bitIndex"
| "Has_st h (largeBitSetV b) bitIndex = largeBitSet_Has_st h b bitIndex"

fun Add_st :: "store \<Rightarrow> SetV \<Rightarrow> uint32 \<Rightarrow> (SetV \<times> store) option" where
  "Add_st h (bitSet64V b) bitIndex = bitSet64_Add_st h b bitIndex"
| "Add_st h (largeBitSetV b) bitIndex = largeBitSet_Add_st h b bitIndex"

fun Remove_st :: "store \<Rightarrow> SetV \<Rightarrow> uint32 \<Rightarrow> (SetV \<times> store) option" where
  "Remove_st h (bitSet64V b) bitIndex = bitSet64_Remove_st h b bitIndex"
| "Remove_st h (largeBitSetV b) bitIndex = largeBitSet_Remove_st h b bitIndex"

text \<open>
  \<^verbatim>\<open>bitSetBuilder.With\<close> over the store: the write \<^verbatim>\<open>b[idx] |= ...\<close> goes into the
  array of the receiver, and the builder returned is the receiver.
\<close>

definition bitSetBuilder_With_st :: "store \<Rightarrow> nat \<Rightarrow> uint32 \<Rightarrow> (nat \<times> store) option" where
  "bitSetBuilder_With_st h b bitIndex =
     (let idx = uint (bitIndex div 64) in
      do {
        n \<leftarrow> st_len h b;
        if idx < n then do {
          w \<leftarrow> st_index h b idx;
          h \<leftarrow> st_assign h b idx (w OR shl1 (bitIndex mod 64));
          Some (b, h)
        } else do {
          (s, h) \<leftarrow> largeBitSet_Add_st h b bitIndex;
          (case s of largeBitSetV newBits \<Rightarrow> Some (newBits, h) | bitSet64V w \<Rightarrow> None)
        }
      })"

text \<open>
  The value that a stored set denotes, and the placement of a value that an operation
  returns: a small set is a value, the words of a large one go into a new array.
\<close>

fun load :: "store \<Rightarrow> SetV \<Rightarrow> Set option" where
  "load h (bitSet64V b) = Some (bitSet64 b)"
| "load h (largeBitSetV a) = map_option largeBitSet (deref h a)"

fun alloc :: "store \<Rightarrow> Set \<Rightarrow> SetV \<times> store" where
  "alloc h (bitSet64 w) = (bitSet64V w, h)"
| "alloc h (largeBitSet newBits) = (largeBitSetV (length h), h @ [newBits])"

section \<open>Reference definitions\<close>

text \<open>
  The representation invariant of the documentation: a slice form has at least two
  words and its last word is not zero.
\<close>

fun trimmed :: "Set \<Rightarrow> bool" where
  "trimmed (bitSet64 b) = True"
| "trimmed (largeBitSet b) = (2 \<le> length b \<and> last b \<noteq> 0)"

text \<open>Every bit position of an addressable slice is the index of some \<^verbatim>\<open>uint32\<close>.\<close>

fun addressable :: "Set \<Rightarrow> bool" where
  "addressable (bitSet64 b) = True"
| "addressable (largeBitSet b) = (length b \<le> 2 ^ 26)"

fun is_large :: "Set \<Rightarrow> bool" where
  "is_large (bitSet64 b) = False"
| "is_large (largeBitSet b) = True"

text \<open>
  An index is out of the range of a representation when it is at least 64 for a small
  set, and when its slot is not a position of the slice for a large one.
\<close>

fun out_of_range :: "Set \<Rightarrow> uint32 \<Rightarrow> bool" where
  "out_of_range (bitSet64 b) bitIndex = (64 \<le> bitIndex)"
| "out_of_range (largeBitSet b) bitIndex = (length b \<le> unat (bitIndex div 64))"

text \<open>Repeated \<^verbatim>\<open>Add\<close> over a sequence of indices.\<close>

fun Add_all :: "Set \<Rightarrow> uint32 list \<Rightarrow> Set option" where
  "Add_all s [] = Some s"
| "Add_all s (i # bitIndices) = do { s \<leftarrow> Add s i; Add_all s bitIndices }"

text \<open>
  The removal of the documentation, in its words: a word is skipped when it is all
  zero or, in the target slot only, when its sole set bit is the one being removed;
  \<open>spec_lastIdx\<close> is the highest slot that is not skipped, \<open>-1\<close> when there is none.
\<close>

definition skipped :: "uint64 list \<Rightarrow> uint32 \<Rightarrow> nat \<Rightarrow> bool" where
  "skipped b bitIndex j =
     (b ! j = 0 \<or> (j = unat (bitIndex div 64) \<and> b ! j = shl1 (bitIndex mod 64)))"

definition spec_lastIdx :: "uint64 list \<Rightarrow> uint32 \<Rightarrow> int" where
  "spec_lastIdx b bitIndex =
     (case filter (\<lambda>j. \<not> skipped b bitIndex j) (rev [0..<length b]) of
        [] \<Rightarrow> - 1
      | j # js \<Rightarrow> int j)"

definition clear_target :: "uint64 list \<Rightarrow> uint32 \<Rightarrow> uint64 list" where
  "clear_target b bitIndex =
     b[unat (bitIndex div 64) := b ! unat (bitIndex div 64) AND NOT (shl1 (bitIndex mod 64))]"

definition spec_Remove :: "uint64 list \<Rightarrow> uint32 \<Rightarrow> Set" where
  "spec_Remove b bitIndex =
     (if spec_lastIdx b bitIndex \<le> 0
      then bitSet64 (if unat (bitIndex div 64) = 0 then clear_target b bitIndex ! 0 else b ! 0)
      else largeBitSet (take (nat (spec_lastIdx b bitIndex + 1)) (clear_target b bitIndex)))"

text \<open>Values reachable from \<^verbatim>\<open>New()\<close> through \<^verbatim>\<open>Add\<close> and \<^verbatim>\<open>Remove\<close> alone.\<close>

inductive reachable :: "Set \<Rightarrow> bool" where
  reach_New: "reachable New"
| reach_Add: "reachable s \<Longrightarrow> Add s i = Some t \<Longrightarrow> reachable t"
| reach_Remove: "reachable s \<Longrightarrow> Remove s i = Some t \<Longrightarrow> reachable t"

text \<open>
  Values produced by the public operations, every builder starting from
  \<^verbatim>\<open>NewBuilder(minCapacity)\<close> with \<open>minCapacity \<le> cap\<close>.
\<close>

inductive produced :: "int \<Rightarrow> Set \<Rightarrow> bool" and built :: "int \<Rightarrow> Builder \<Rightarrow> bool"
  for cap :: int where
  prod_New: "produced cap New"
| prod_Add: "produced cap s \<Longrightarrow> Add s i = Some t \<Longrightarrow> produced cap t"
| prod_Remove: "produced cap s \<Longrightarrow> Remove s i = Some t \<Longrightarrow> produced cap t"
| prod_Build: "built cap bld \<Longrightarrow> produced cap (Build bld)"
| built_NewBuilder: "sint minCapacity \<le> cap \<Longrightarrow> NewBuilder minCapacity = Some bld \<Longrightarrow> built cap bld"
| built_With: "built cap bld \<Longrightarrow> With bld i = Some bld' \<Longrightarrow> built cap bld'"
| built_WithMany: "built cap bld \<Longrightarrow> WithMany bld bitIndices = Some bld' \<Longrightarrow> built cap bld'"

declare Remove_scan.simps [simp del]

section \<open>Auxiliary facts\<close>

subsection \<open>Words\<close>

lemma bit_shl1: "bit (shl1 s) n \<longleftrightarrow> n = unat s \<and> n < 64"
  by (auto simp add: shl1_def bit_simps)

lemma shl1_nonzero: "s < 64 \<Longrightarrow> shl1 s \<noteq> 0"
proof
  assume a: "s < 64" and z: "shl1 s = 0"
  from a have "unat s < 64" by (simp add: word_less_nat_alt)
  then have "bit (shl1 s) (unat s)" by (simp add: bit_shl1)
  with z show False by simp
qed

lemmas word64_eq_iff = bit_eq_iff [where ?'a = "64 word"]

lemma and_shl1_nonzero: "(w AND shl1 s \<noteq> 0) \<longleftrightarrow> (unat s < 64 \<and> bit w (unat s))"
  by (auto simp add: word64_eq_iff bit_simps bit_shl1)

lemma and_not_shl1_eq_0: "(w AND NOT (shl1 s) = 0) \<longleftrightarrow> (w = 0 \<or> w = shl1 s)"
proof
  assume a: "w AND NOT (shl1 s) = 0"
  have b: "bit (shl1 s) n" if "bit w n" for n
  proof (rule ccontr)
    assume "\<not> bit (shl1 s) n"
    with that have "bit (w AND NOT (shl1 s)) n"
      using bit_imp_le_length [of w n] by (simp only: bit_and_iff bit_not_iff) simp
    with a show False by simp
  qed
  show "w = 0 \<or> w = shl1 s"
  proof (cases "bit w (unat s)")
    case True
    have "w = shl1 s"
    proof (rule bit_word_eqI)
      fix n assume "n < LENGTH(64)"
      show "bit w n = bit (shl1 s) n"
        using b [of n] True by (auto simp add: bit_shl1)
    qed
    then show ?thesis ..
  next
    case False
    have "w = 0"
    proof (rule bit_word_eqI)
      fix n assume "n < LENGTH(64)"
      show "bit w n = bit (0 :: uint64) n"
        using b [of n] False by (auto simp add: bit_shl1)
    qed
    then show ?thesis ..
  qed
next
  assume "w = 0 \<or> w = shl1 s"
  then show "w AND NOT (shl1 s) = 0" by auto
qed

lemma or_and_not_shl1: "w AND shl1 s = 0 \<Longrightarrow> (w OR shl1 s) AND NOT (shl1 s) = w"
  by (auto simp add: word64_eq_iff bit_simps)

lemma mod64_less: "(i :: uint32) mod 64 < 64"
  by (simp add: word_mod_less_divisor)

lemma unat_mod64: "unat ((i :: uint32) mod 64) = unat i mod 64"
  by (simp add: unat_mod)

lemma unat_div64: "unat ((i :: uint32) div 64) = unat i div 64"
  by (simp add: unat_div)

lemma less64_iff: "(i :: uint32) < 64 \<longleftrightarrow> unat i < 64"
  by (simp add: word_less_nat_alt)

lemma unat_uint32_bound: "unat (i :: uint32) div 64 < 2 ^ 26"
proof -
  have "unat i < 2 ^ 32" using unsigned_less [of i] by simp
  then show ?thesis by simp
qed

lemma uint_less_int: "uint (w :: uint32) < int n \<longleftrightarrow> unat w < n"
  by (simp add: uint_nat del: of_nat_unat)

lemma int_le_uint: "int n \<le> uint (w :: uint32) \<longleftrightarrow> n \<le> unat w"
  by (simp add: uint_nat del: of_nat_unat)

lemma int_eq_uint: "int n = uint (w :: uint32) \<longleftrightarrow> n = unat w"
  by (simp add: uint_nat del: of_nat_unat)

lemma slot_zero_iff: "unat ((i :: uint32) div 64) = 0 \<longleftrightarrow> i < 64"
  by (simp add: unat_div64 less64_iff div_eq_0_iff)

lemma mod64_id: "(i :: uint32) < 64 \<Longrightarrow> i mod 64 = i"
  by (simp add: word_unat_eq_iff unat_mod64 less64_iff)

subsection \<open>Primitives\<close>

lemma go_index_nat: "n < length b \<Longrightarrow> go_index b (int n) = Some (b ! n)"
  by (simp add: go_index_def)

lemma go_index_uint: "unat w < length b \<Longrightarrow> go_index b (uint (w :: uint32)) = Some (b ! unat w)"
  by (simp add: go_index_def uint_less_int)

lemma go_assign_nat: "n < length b \<Longrightarrow> go_assign b (int n) v = Some (b[n := v])"
  by (simp add: go_assign_def)

lemma go_assign_uint: "unat w < length b \<Longrightarrow> go_assign b (uint (w :: uint32)) v = Some (b[unat w := v])"
  by (simp add: go_assign_def uint_less_int)

lemma go_make_nat: "go_make (int n) = Some (replicate n 0)"
  by (simp add: go_make_def)

lemma go_copy_grow: "length src \<le> n \<Longrightarrow> go_copy (replicate n 0) src = src @ replicate (n - length src) 0"
  by (simp add: go_copy_def min_def)

lemma go_copy_same: "go_copy (replicate (length src) 0) src = src"
  by (simp add: go_copy_def)

lemma go_make_Suc: "go_make (int n + 1) = Some (replicate (Suc n) 0)"
  by (simp add: go_make_def nat_add_distrib)

lemma go_make_max: "go_make (max (int m) (int n + 1)) = Some (replicate (max m (Suc n)) 0)"
proof -
  have "max (int m) (int n + 1) = int (max m (Suc n))" by (simp add: max_def)
  then show ?thesis by (simp only: go_make_nat)
qed

subsection \<open>Closed forms of the operations\<close>

lemma bitSet64_Add_small: "i < 64 \<Longrightarrow> bitSet64_Add b i = Some (bitSet64 (b OR shl1 i))"
  by (simp add: bitSet64_Add_def)

lemma slot_pos: "64 \<le> (i :: uint32) \<Longrightarrow> 0 < unat (i div 64)"
  using slot_zero_iff [of i] by (simp add: not_less [symmetric])

lemma replicate_update_last: "(replicate (Suc k) x)[k := y] = replicate k x @ [y]"
  by (induction k) simp_all

lemma bitSet64_Add_large:
  assumes "64 \<le> i"
  shows "bitSet64_Add b i =
    Some (largeBitSet (b # replicate (unat (i div 64) - 1) 0 @ [shl1 (i mod 64)]))"
proof -
  define n where "n = unat (i div 64)"
  define z :: "uint64 list" where "z = replicate (Suc n) 0"
  have n: "uint (i div 64) = int n" by (simp add: n_def)
  have pos: "0 < n" using assms by (simp add: n_def slot_pos)
  then obtain k where k: "n = Suc k" by (cases n) simp_all
  have not_small: "\<not> i < 64" using assms by (simp add: not_less)
  have l0: "0 < length z" and ln: "n < length (z[0 := b])" by (simp_all add: z_def)
  have a0: "go_assign z 0 b = Some (z[0 := b])"
    using go_assign_nat [OF l0, of b] by simp
  have rd: "z[0 := b] ! n = 0" using pos by (simp add: z_def)
  have "z[0 := b, n := shl1 (i mod 64)] = b # (replicate (Suc k) 0)[k := shl1 (i mod 64)]"
    by (simp add: z_def k)
  then have fin: "z[0 := b, n := shl1 (i mod 64)] = b # replicate (n - 1) 0 @ [shl1 (i mod 64)]"
    by (simp only: replicate_update_last k diff_Suc_1)
  show ?thesis
    unfolding bitSet64_Add_def n Let_def n_def [symmetric]
    by (simp only: not_small if_False go_make_Suc z_def [symmetric] a0 go_index_nat [OF ln]
        go_assign_nat [OF ln] bind.bind_lunit rd or.left_neutral fin)
qed

lemma largeBitSet_Add_eq:
  "largeBitSet_Add b i =
     Some (largeBitSet ((b @ replicate (Suc (unat (i div 64)) - length b) 0)
        [unat (i div 64) := (b @ replicate (Suc (unat (i div 64)) - length b) 0) ! unat (i div 64) OR shl1 (i mod 64)]))"
proof -
  define n where "n = unat (i div 64)"
  have n: "uint (i div 64) = int n" by (simp add: n_def)
  have c: "go_copy (replicate (max (length b) (Suc n)) 0) b = b @ replicate (Suc n - length b) 0"
    by (simp add: go_copy_grow max_def)
  have l: "n < length (b @ replicate (Suc n - length b) 0)" by simp
  show ?thesis
    unfolding largeBitSet_Add_def n Let_def n_def [symmetric]
    by (simp only: go_make_max c go_index_nat [OF l] go_assign_nat [OF l] bind.bind_lunit)
qed

subsection \<open>The scan of Remove\<close>

lemma filter_rev_upt_Nil: "filter P (rev [0..<n]) = [] \<longleftrightarrow> (\<forall>j<n. \<not> P j)"
  by (auto simp add: filter_empty_conv)

lemma filter_rev_upt_Cons:
  "filter P (rev [0..<n]) = j # js \<Longrightarrow> j < n \<and> P j \<and> (\<forall>k. j < k \<and> k < n \<longrightarrow> \<not> P k)"
proof (induction n)
  case 0
  then show ?case by simp
next
  case (Suc n)
  show ?case
  proof (cases "P n")
    case True
    with Suc.prems have "j = n" by simp
    with True show ?thesis by auto
  next
    case False
    with Suc.prems have "filter P (rev [0..<n]) = j # js" by simp
    from Suc.IH [OF this] False show ?thesis
      by (auto simp add: less_Suc_eq)
  qed
qed

lemma spec_lastIdx_bounds: "- 1 \<le> spec_lastIdx b i \<and> spec_lastIdx b i < int (length b)"
  by (auto simp add: spec_lastIdx_def split: list.splits dest: filter_rev_upt_Cons)

lemma spec_lastIdx_not_skipped: "0 \<le> spec_lastIdx b i \<Longrightarrow> \<not> skipped b i (nat (spec_lastIdx b i))"
  by (auto simp add: spec_lastIdx_def split: list.splits dest: filter_rev_upt_Cons)

lemma spec_lastIdx_above: "spec_lastIdx b i < int j \<Longrightarrow> j < length b \<Longrightarrow> skipped b i j"
  by (auto simp add: spec_lastIdx_def filter_rev_upt_Nil split: list.splits dest: filter_rev_upt_Cons)

lemma spec_lastIdxI:
  assumes "j < length b" "\<not> skipped b i j" "\<And>k. j < k \<Longrightarrow> k < length b \<Longrightarrow> skipped b i k"
  shows "spec_lastIdx b i = int j"
proof -
  have "\<not> spec_lastIdx b i < int j"
    using spec_lastIdx_above [of b i j] assms(1,2) by blast
  moreover have "\<not> int j < spec_lastIdx b i"
  proof
    assume a: "int j < spec_lastIdx b i"
    then have "0 \<le> spec_lastIdx b i" by simp
    have "j < nat (spec_lastIdx b i)" "nat (spec_lastIdx b i) < length b"
      using a spec_lastIdx_bounds [of b i] by simp_all
    from assms(3) [OF this] spec_lastIdx_not_skipped [OF \<open>0 \<le> spec_lastIdx b i\<close>]
    show False by simp
  qed
  ultimately show ?thesis by simp
qed

lemma Remove_scan_eq:
  "n \<le> length b \<Longrightarrow>
   Remove_scan b (uint (i div 64)) i (int n - 1) =
     Some (case filter (\<lambda>j. \<not> skipped b i j) (rev [0..<n]) of [] \<Rightarrow> - 1 | j # js \<Rightarrow> int j)"
proof (induction n)
  case 0
  show ?case by (simp add: Remove_scan.simps [of b _ i "- 1"])
next
  case (Suc n)
  then have n: "n < length b" and IH: "Remove_scan b (uint (i div 64)) i (int n - 1) =
     Some (case filter (\<lambda>j. \<not> skipped b i j) (rev [0..<n]) of [] \<Rightarrow> - 1 | j # js \<Rightarrow> int j)"
    by simp_all
  have sk: "(b ! n = 0 \<or> (int n = uint (i div 64) \<and> b ! n = shl1 (i mod 64))) = skipped b i n"
    by (simp add: skipped_def int_eq_uint)
  have "Remove_scan b (uint (i div 64)) i (int n) =
     (if skipped b i n then Remove_scan b (uint (i div 64)) i (int n - 1) else Some (int n))"
    by (subst Remove_scan.simps) (simp add: go_index_nat [OF n] sk)
  then show ?case by (simp add: IH)
qed

lemma Remove_scan_spec:
  "Remove_scan b (uint (i div 64)) i (int (length b) - 1) = Some (spec_lastIdx b i)"
  by (simp add: Remove_scan_eq spec_lastIdx_def)

lemma largeBitSet_Remove_out: "length b \<le> unat (i div 64) \<Longrightarrow> largeBitSet_Remove b i = Some (largeBitSet b)"
  by (simp add: largeBitSet_Remove_def int_le_uint)

lemma largeBitSet_Remove_eq:
  assumes "unat (i div 64) < length b"
  shows "largeBitSet_Remove b i = Some (spec_Remove b i)"
proof -
  define n where "n = unat (i div 64)"
  define l where "l = spec_lastIdx b i"
  have n: "uint (i div 64) = int n" by (simp add: n_def)
  have nb: "n < length b" using assms by (simp add: n_def)
  have lb: "- 1 \<le> l" "l < int (length b)" using spec_lastIdx_bounds [of b i] by (simp_all add: l_def)
  have scan: "Remove_scan b (int n) i (int (length b) - 1) = Some l"
    using Remove_scan_spec [of b i] by (simp only: n l_def)
  have "0 < length b" using nb by (cases b) simp_all
  from go_index_nat [OF this] have b0: "go_index b 0 = Some (b ! 0)" by simp
  have unfold: "largeBitSet_Remove b i =
    (if l \<le> 0 then Some (bitSet64 (if b ! 0 \<noteq> 0 \<and> n = 0 then b ! 0 AND NOT (shl1 i) else b ! 0))
     else do {
          bits \<leftarrow> go_slice_to b (l + 1);
          newBits \<leftarrow> go_make (int (length bits));
          newBits \<leftarrow> Some (go_copy newBits bits);
          if int n < int (length newBits) then do {
            w \<leftarrow> go_index newBits (int n);
            newBits \<leftarrow> go_assign newBits (int n) (w AND NOT (shl1 (i mod 64)));
            Some (largeBitSet newBits)
          } else Some (largeBitSet newBits)
        })"
    unfolding largeBitSet_Remove_def Let_def n using nb by (simp add: scan b0)
  have spec: "spec_Remove b i =
     (if l \<le> 0
      then bitSet64 (if n = 0 then clear_target b i ! 0 else b ! 0)
      else largeBitSet (take (nat (l + 1)) (clear_target b i)))"
    by (simp add: spec_Remove_def l_def n_def)
  have ct: "clear_target b i = b[n := b ! n AND NOT (shl1 (i mod 64))]"
    by (simp add: clear_target_def n_def)
  show ?thesis
  proof (cases "l \<le> 0")
    case True
    have "(if b ! 0 \<noteq> 0 \<and> n = 0 then b ! 0 AND NOT (shl1 i) else b ! 0) =
          (if n = 0 then clear_target b i ! 0 else b ! 0)"
    proof (cases "n = 0")
      case True
      then have "i < 64" by (simp add: n_def slot_zero_iff)
      then have "i mod 64 = i" by (rule mod64_id)
      with True nb show ?thesis by (simp add: ct)
    next
      case False
      then show ?thesis by simp
    qed
    with True show ?thesis by (simp add: unfold spec)
  next
    case False
    define m where "m = nat l"
    have m: "l = int m" "0 < m" "m < length b" using False lb by (simp_all add: m_def)
    have sl: "go_slice_to b (int m + 1) = Some (take (Suc m) b)"
      using m by (simp add: go_slice_to_def nat_add_distrib)
    have len: "length (take (Suc m) b) = Suc m" using m by simp
    have mk: "go_make (int (Suc m)) = Some (replicate (Suc m) 0)"
      by (rule go_make_nat)
    have cp: "go_copy (replicate (Suc m) 0) (take (Suc m) b) = take (Suc m) b"
      using go_copy_same [of "take (Suc m) b"] by (simp only: len)
    have step: "largeBitSet_Remove b i =
       (if n < Suc m then do {
            w \<leftarrow> go_index (take (Suc m) b) (int n);
            newBits \<leftarrow> go_assign (take (Suc m) b) (int n) (w AND NOT (shl1 (i mod 64)));
            Some (largeBitSet newBits)
          } else Some (largeBitSet (take (Suc m) b)))"
      using False by (simp only: unfold if_False m(1) sl bind.bind_lunit len mk cp of_nat_less_iff)
    have spec': "spec_Remove b i = largeBitSet (take (Suc m) (clear_target b i))"
      using False by (simp add: spec m(1) nat_add_distrib)
    show ?thesis
    proof (cases "n < Suc m")
      case True
      then have nl: "n < length (take (Suc m) b)" using len by simp
      have "(take (Suc m) b)[n := take (Suc m) b ! n AND NOT (shl1 (i mod 64))] =
            take (Suc m) (clear_target b i)"
        using True by (simp add: ct take_update_swap)
      with True show ?thesis
        by (simp only: step spec' if_True go_index_nat [OF nl] go_assign_nat [OF nl] bind.bind_lunit)
    next
      case False
      then have "take (Suc m) b = take (Suc m) (clear_target b i)"
        by (simp add: ct)
      with False show ?thesis
        by (simp only: step spec' if_False)
    qed
  qed
qed

subsection \<open>Membership\<close>

lemma Has_small: "bitSet64_Has w k = Some (k < 64 \<and> bit w (unat k))"
  by (auto simp add: bitSet64_Has_def and_shl1_nonzero less64_iff word_le_nat_alt)

lemma Has_large:
  "largeBitSet_Has b k =
     Some (unat (k div 64) < length b \<and> bit (b ! unat (k div 64)) (unat (k mod 64)))"
proof (cases "unat (k div 64) < length b")
  case True
  have "unat (k mod 64) < 64" using mod64_less [of k] by (simp add: less64_iff)
  with True show ?thesis
    by (simp add: largeBitSet_Has_def int_le_uint go_index_uint and_shl1_nonzero)
next
  case False
  then show ?thesis by (simp add: largeBitSet_Has_def int_le_uint)
qed

subsection \<open>What Remove returns is trimmed\<close>

lemma clear_target_nonzero:
  assumes "j < length b" "\<not> skipped b i j"
  shows "clear_target b i ! j \<noteq> 0"
proof (cases "j = unat (i div 64)")
  case True
  with assms have "b ! j \<noteq> 0" "b ! j \<noteq> shl1 (i mod 64)" by (simp_all add: skipped_def)
  then have "b ! j AND NOT (shl1 (i mod 64)) \<noteq> 0" by (simp add: and_not_shl1_eq_0)
  with True assms(1) show ?thesis by (simp add: clear_target_def)
next
  case False
  with assms show ?thesis by (simp add: clear_target_def skipped_def)
qed

lemma length_clear_target: "length (clear_target b i) = length b"
  by (simp add: clear_target_def)

lemma spec_Remove_trimmed: "trimmed (spec_Remove b i)"
proof (cases "spec_lastIdx b i \<le> 0")
  case True
  then show ?thesis by (simp add: spec_Remove_def)
next
  case False
  define m where "m = nat (spec_lastIdx b i)"
  have m: "spec_lastIdx b i = int m" "0 < m" "m < length b"
    using False spec_lastIdx_bounds [of b i] by (simp_all add: m_def)
  have "\<not> skipped b i m" using spec_lastIdx_not_skipped [of b i] m by simp
  with m have nz: "clear_target b i ! m \<noteq> 0" by (simp add: clear_target_nonzero)
  have "clear_target b i \<noteq> []" using m length_clear_target [of b i] by (cases "clear_target b i") simp_all
  then have ne: "take (Suc m) (clear_target b i) \<noteq> []" by simp
  have "last (take (Suc m) (clear_target b i)) = clear_target b i ! m"
  proof -
    have "length (take (Suc m) (clear_target b i)) - 1 = m"
      using m(3) by (simp add: length_clear_target min_def) arith
    then have "last (take (Suc m) (clear_target b i)) = take (Suc m) (clear_target b i) ! m"
      by (simp only: last_conv_nth [OF ne])
    then show ?thesis by simp
  qed
  with nz m False show ?thesis
    by (simp add: spec_Remove_def nat_add_distrib length_clear_target)
qed

subsection \<open>Store operations\<close>

declare Remove_scan_st.simps [simp del]

lemma deref_less: "deref h a = Some b \<Longrightarrow> a < length h"
  by (simp add: deref_def split: if_splits)

lemma deref_new: "deref (h @ [z]) (length h) = Some z"
  by (simp add: deref_def)

lemma deref_old: "deref h a = Some b \<Longrightarrow> deref (h @ [z]) a = Some b"
  by (auto simp add: deref_def nth_append split: if_splits)

lemma st_len_eq: "deref h a = Some b \<Longrightarrow> st_len h a = Some (int (length b))"
  by (simp add: st_len_def)

lemma st_index_eq: "deref h a = Some b \<Longrightarrow> st_index h a i = go_index b i"
  by (simp add: st_index_def)

lemma st_make_eq: "go_make n = Some z \<Longrightarrow> st_make h n = Some (length h, h @ [z])"
  by (simp add: st_make_def)

lemma st_assign_new:
  "go_assign z i v = Some z' \<Longrightarrow> st_assign (h @ [z]) (length h) i v = Some (h @ [z'])"
  by (simp add: st_assign_def deref_new)

lemma st_copy_new:
  "deref h a = Some b \<Longrightarrow> st_copy (h @ [z]) (length h) (a, m) = Some (h @ [go_copy z (take m b)])"
  by (simp add: st_copy_def deref_new deref_old)

text \<open>What a store operation may change: \<^verbatim>\<open>make\<close> nothing that exists, a write only its target.\<close>

lemma st_make_frame:
  "st_make h n = Some (a, h') \<Longrightarrow> a = length h \<and> take (length h) h' = h"
  by (auto simp add: st_make_def split: bind_splits)

lemma st_assign_frame:
  "st_assign h a i v = Some h' \<Longrightarrow> length h' = length h \<and> (\<forall>c. c \<noteq> a \<longrightarrow> deref h' c = deref h c)"
  by (auto simp add: st_assign_def deref_def split: bind_splits)

lemma st_copy_frame:
  "st_copy h dst src = Some h' \<Longrightarrow> length h' = length h \<and> (\<forall>c. c \<noteq> dst \<longrightarrow> deref h' c = deref h c)"
  by (auto simp add: st_copy_def deref_def split: bind_splits)

lemma Remove_scan_st_eq:
  "deref h a = Some b \<Longrightarrow> Remove_scan_st h a idx i l = Remove_scan b idx i l"
proof (induction b idx i l rule: Remove_scan.induct)
  case (1 b idx bitIndex lastIdx)
  note rd = st_index_eq [OF "1.prems"]
  show ?case
  proof (cases "lastIdx \<ge> 0")
    case False
    then show ?thesis
      by (subst Remove_scan_st.simps, subst Remove_scan.simps) simp
  next
    case True
    show ?thesis
    proof (cases "go_index b lastIdx")
      case None
      with True show ?thesis
        by (subst Remove_scan_st.simps, subst Remove_scan.simps) (simp add: rd)
    next
      case (Some w)
      show ?thesis
      proof (cases "w = 0 \<or> (lastIdx = idx \<and> w = shl1 (bitIndex mod 64))")
        case skip: True
        from "1.IH" [OF True Some skip "1.prems"]
        have IH: "Remove_scan_st h a idx bitIndex (lastIdx - 1) = Remove_scan b idx bitIndex (lastIdx - 1)" .
        have "Remove_scan_st h a idx bitIndex lastIdx = Remove_scan_st h a idx bitIndex (lastIdx - 1)"
          using True Some skip by (subst Remove_scan_st.simps) (auto simp add: rd)
        moreover have "Remove_scan b idx bitIndex lastIdx = Remove_scan b idx bitIndex (lastIdx - 1)"
          using True Some skip by (subst Remove_scan.simps) auto
        ultimately show ?thesis using IH by simp
      next
        case stop: False
        have "Remove_scan_st h a idx bitIndex lastIdx = Some lastIdx"
          using True Some stop by (subst Remove_scan_st.simps) (auto simp add: rd)
        moreover have "Remove_scan b idx bitIndex lastIdx = Some lastIdx"
          using True Some stop by (subst Remove_scan.simps) auto
        ultimately show ?thesis by simp
      qed
    qed
  qed
qed

lemma largeBitSet_Has_st_eq:
  "deref h a = Some b \<Longrightarrow> largeBitSet_Has_st h a i = largeBitSet_Has b i"
  by (simp add: largeBitSet_Has_st_def largeBitSet_Has_def st_len_eq st_index_eq Let_def)

subsection \<open>The operations over the store and over values\<close>

lemma bitSet64_Add_st_eq: "bitSet64_Add_st h b i = map_option (alloc h) (bitSet64_Add b i)"
proof (cases "i < 64")
  case True
  then show ?thesis by (simp add: bitSet64_Add_st_def bitSet64_Add_small)
next
  case False
  then have ge: "64 \<le> i" by (simp add: not_less)
  define n where "n = unat (i div 64)"
  define z :: "uint64 list" where "z = replicate (Suc n) 0"
  have n: "uint (i div 64) = int n" by (simp add: n_def)
  have pos: "0 < n" using ge by (simp add: n_def slot_pos)
  then obtain k where k: "n = Suc k" by (cases n) simp_all
  have mk: "st_make h (int n + 1) = Some (length h, h @ [z])"
    by (rule st_make_eq) (simp add: go_make_Suc z_def)
  have "0 < length z" by (simp add: z_def)
  from go_assign_nat [OF this, of b] have "go_assign z 0 b = Some (z[0 := b])" by simp
  then have a0: "st_assign (h @ [z]) (length h) 0 b = Some (h @ [z[0 := b] ])"
    by (rule st_assign_new)
  have ln: "n < length (z[0 := b])" by (simp add: z_def)
  have "z[0 := b] ! n = 0" using pos by (simp add: z_def)
  then have rd: "st_index (h @ [z[0 := b] ]) (length h) (int n) = Some 0"
    by (simp only: st_index_eq [OF deref_new] go_index_nat [OF ln])
  have an: "st_assign (h @ [z[0 := b] ]) (length h) (int n) v = Some (h @ [z[0 := b, n := v] ])" for v
    by (rule st_assign_new) (rule go_assign_nat [OF ln])
  have "z[0 := b, n := shl1 (i mod 64)] = b # (replicate (Suc k) 0)[k := shl1 (i mod 64)]"
    by (simp add: z_def k)
  then have fin: "z[0 := b, n := shl1 (i mod 64)] = b # replicate (n - 1) 0 @ [shl1 (i mod 64)]"
    by (simp only: replicate_update_last k diff_Suc_1)
  have "bitSet64_Add_st h b i = Some (largeBitSetV (length h), h @ [z[0 := b, n := shl1 (i mod 64)] ])"
    unfolding bitSet64_Add_st_def n Let_def
    by (simp only: False if_False mk a0 rd an bind.bind_lunit case_prod_conv or.left_neutral)
  then show ?thesis
    by (simp add: bitSet64_Add_large [OF ge] fin n_def [symmetric])
qed

lemma largeBitSet_Add_st_eq:
  assumes "deref h a = Some b"
  shows "largeBitSet_Add_st h a i = map_option (alloc h) (largeBitSet_Add b i)"
proof -
  define n where "n = unat (i div 64)"
  define z :: "uint64 list" where "z = replicate (max (length b) (Suc n)) 0"
  define g where "g = b @ replicate (Suc n - length b) 0"
  have n: "uint (i div 64) = int n" by (simp add: n_def)
  have len: "st_len h a = Some (int (length b))" by (rule st_len_eq [OF assms])
  have mk: "st_make h (max (int (length b)) (int n + 1)) = Some (length h, h @ [z])"
    by (rule st_make_eq) (simp only: go_make_max z_def)
  have c: "go_copy z b = g"
    by (simp add: z_def g_def go_copy_grow max_def)
  have cp: "st_copy (h @ [z]) (length h) (a, nat (int (length b))) = Some (h @ [g])"
    using st_copy_new [OF assms, of z "length b"] by (simp add: c)
  have l: "n < length g" by (simp add: g_def)
  have rd: "st_index (h @ [g]) (length h) (int n) = Some (g ! n)"
    by (simp add: st_index_eq [OF deref_new] go_index_nat [OF l])
  have an: "st_assign (h @ [g]) (length h) (int n) v = Some (h @ [g[n := v] ])" for v
    by (rule st_assign_new) (rule go_assign_nat [OF l])
  have "largeBitSet_Add_st h a i = Some (largeBitSetV (length h), h @ [g[n := g ! n OR shl1 (i mod 64)] ])"
    unfolding largeBitSet_Add_st_def n Let_def
    by (simp only: len mk cp rd an bind.bind_lunit case_prod_conv)
  then show ?thesis
    by (simp add: largeBitSet_Add_eq g_def n_def [symmetric])
qed

lemma demoted_word:
  assumes "unat (i div 64) < length b"
  shows "(if b ! 0 \<noteq> 0 \<and> unat (i div 64) = 0 then b ! 0 AND NOT (shl1 i) else b ! 0) =
         (if unat (i div 64) = 0 then clear_target b i ! 0 else b ! 0)"
proof (cases "unat (i div 64) = 0")
  case True
  then have "i < 64" by (simp add: slot_zero_iff)
  then have "i mod 64 = i" by (rule mod64_id)
  with True assms show ?thesis by (simp add: clear_target_def)
next
  case False
  then show ?thesis by simp
qed

lemma shrunk_words:
  "(if n < Suc m then (take (Suc m) b)[n := take (Suc m) b ! n AND NOT x] else take (Suc m) b) =
     take (Suc m) (b[n := b ! n AND NOT x])"
proof (cases "n < Suc m")
  case True
  then show ?thesis by (simp add: take_update_swap)
next
  case False
  then have "take (Suc m) (b[n := b ! n AND NOT x]) = take (Suc m) b" by simp
  with False show ?thesis by (simp only: if_False)
qed

lemma largeBitSet_Remove_st_eq:
  assumes "deref h a = Some b"
  shows "largeBitSet_Remove_st h a i =
    (if length b \<le> unat (i div 64) then Some (largeBitSetV a, h)
     else map_option (alloc h) (largeBitSet_Remove b i))"
proof (cases "length b \<le> unat (i div 64)")
  case True
  then show ?thesis
    by (simp add: largeBitSet_Remove_st_def st_len_eq [OF assms] int_le_uint)
next
  case False
  define n where "n = unat (i div 64)"
  define l where "l = spec_lastIdx b i"
  have n: "uint (i div 64) = int n" by (simp add: n_def)
  have nb: "n < length b" using False by (simp add: n_def)
  have lb: "- 1 \<le> l" "l < int (length b)" using spec_lastIdx_bounds [of b i] by (simp_all add: l_def)
  have len: "st_len h a = Some (int (length b))" by (rule st_len_eq [OF assms])
  have scan: "Remove_scan_st h a (int n) i (int (length b) - 1) = Some l"
    using Remove_scan_spec [of b i] by (simp only: Remove_scan_st_eq [OF assms] n l_def)
  have "0 < length b" using nb by (cases b) simp_all
  from go_index_nat [OF this] have b0: "st_index h a 0 = Some (b ! 0)"
    by (simp add: st_index_eq [OF assms])
  have unfold: "largeBitSet_Remove_st h a i =
    (if l \<le> 0 then Some (bitSet64V (if b ! 0 \<noteq> 0 \<and> n = 0 then b ! 0 AND NOT (shl1 i) else b ! 0), h)
     else do {
          bits \<leftarrow> st_slice_to h a (l + 1);
          (newBits, h) \<leftarrow> st_make h (int (snd bits));
          h \<leftarrow> st_copy h newBits bits;
          m \<leftarrow> st_len h newBits;
          if int n < m then do {
            w \<leftarrow> st_index h newBits (int n);
            h \<leftarrow> st_assign h newBits (int n) (w AND NOT (shl1 (i mod 64)));
            Some (largeBitSetV newBits, h)
          } else Some (largeBitSetV newBits, h)
        })"
    unfolding largeBitSet_Remove_st_def Let_def n using nb by (simp add: len scan b0)
  have spec: "largeBitSet_Remove b i = Some (spec_Remove b i)"
    using nb by (simp add: largeBitSet_Remove_eq n_def)
  show ?thesis
  proof (cases "l \<le> 0")
    case True
    with demoted_word [of i b] nb False show ?thesis
      by (simp add: unfold spec spec_Remove_def l_def [symmetric] n_def [symmetric])
  next
    case pos: False
    define m where "m = nat l"
    define t where "t = take (Suc m) b"
    have m: "l = int m" "0 < m" "m < length b" using pos lb by (simp_all add: m_def)
    have lt: "length t = Suc m" using m by (simp add: t_def)
    have sl: "st_slice_to h a (int m + 1) = Some (a, Suc m)"
      using m by (simp add: st_slice_to_def assms go_slice_to_def nat_add_distrib)
    have mk: "st_make h (int (Suc m)) = Some (length h, h @ [replicate (Suc m) 0])"
      by (rule st_make_eq) (rule go_make_nat)
    have "go_copy (replicate (Suc m) 0) t = t"
      using go_copy_same [of t] by (simp only: lt)
    then have cp: "st_copy (h @ [replicate (Suc m) 0]) (length h) (a, Suc m) = Some (h @ [t])"
      using st_copy_new [OF assms, of "replicate (Suc m) 0" "Suc m"] by (simp only: t_def)
    have ln: "st_len (h @ [t]) (length h) = Some (int (Suc m))"
      by (simp only: st_len_eq [OF deref_new] lt)
    have step: "largeBitSet_Remove_st h a i =
       (if n < Suc m then do {
            w \<leftarrow> st_index (h @ [t]) (length h) (int n);
            h' \<leftarrow> st_assign (h @ [t]) (length h) (int n) (w AND NOT (shl1 (i mod 64)));
            Some (largeBitSetV (length h), h')
          } else Some (largeBitSetV (length h), h @ [t]))"
      using pos
      by (simp only: unfold if_False m(1) sl snd_conv mk cp ln bind.bind_lunit case_prod_conv of_nat_less_iff)
    have ws: "(if n < Suc m then t[n := t ! n AND NOT (shl1 (i mod 64))] else t) =
        take (Suc m) (clear_target b i)"
      unfolding t_def clear_target_def n_def [symmetric] by (rule shrunk_words)
    have res: "spec_Remove b i = largeBitSet (take (Suc m) (clear_target b i))"
      using pos by (simp add: spec_Remove_def l_def [symmetric] m(1) nat_add_distrib)
    show ?thesis
    proof (cases "n < Suc m")
      case True
      then have nl: "n < length t" using lt by simp
      have rd: "st_index (h @ [t]) (length h) (int n) = Some (t ! n)"
        by (simp only: st_index_eq [OF deref_new] go_index_nat [OF nl])
      have an: "st_assign (h @ [t]) (length h) (int n) v = Some (h @ [t[n := v] ])" for v
        by (rule st_assign_new) (rule go_assign_nat [OF nl])
      have "largeBitSet_Remove_st h a i =
          Some (largeBitSetV (length h), h @ [t[n := t ! n AND NOT (shl1 (i mod 64))] ])"
        using True by (simp only: step if_True rd an bind.bind_lunit)
      with True ws False show ?thesis by (simp add: spec res n_def [symmetric])
    next
      case nlt: False
      then have "largeBitSet_Remove_st h a i = Some (largeBitSetV (length h), h @ [t])"
        by (simp only: step if_False)
      with nlt ws False show ?thesis by (simp add: spec res n_def [symmetric])
    qed
  qed
qed

section \<open>Removal and promotion\<close>

text \<open>
  Claim C3. For a slice \<open>b\<close> and an index \<open>i\<close> whose slot \<open>i div 64\<close> is a position of
  \<open>b\<close>, the loop of \<^verbatim>\<open>Remove\<close> started at the last slot stops at the highest slot that
  is neither all zero nor, in the target slot, made of the removed bit alone
  (\<open>spec_lastIdx\<close>, \<open>-1\<close> when every slot is skipped). When that slot is at most 0,
  \<^verbatim>\<open>Remove\<close> returns the small set holding word 0, with the target bit cleared when
  the target slot is 0; otherwise it returns the slice of the first \<open>lastIdx + 1\<close>
  words with the target bit cleared (\<open>spec_Remove\<close>).
\<close>

theorem Remove_follows_documented_scan:
  assumes "unat (i div 64) < length b"
  shows "Remove_scan b (uint (i div 64)) i (int (length b) - 1) = Some (spec_lastIdx b i)
    \<and> (\<forall>j. spec_lastIdx b i < int j \<and> j < length b \<longrightarrow> skipped b i j)
    \<and> (0 \<le> spec_lastIdx b i \<longrightarrow> \<not> skipped b i (nat (spec_lastIdx b i)))
    \<and> Remove (largeBitSet b) i = Some (spec_Remove b i)
    \<and> (0 < spec_lastIdx b i \<longrightarrow>
         (\<exists>ws. Remove (largeBitSet b) i = Some (largeBitSet ws) \<and> int (length ws) = spec_lastIdx b i + 1))"
proof -
  have "0 < spec_lastIdx b i \<longrightarrow>
     (\<exists>ws. spec_Remove b i = largeBitSet ws \<and> int (length ws) = spec_lastIdx b i + 1)"
    using spec_lastIdx_bounds [of b i] by (auto simp add: spec_Remove_def length_clear_target)
  then show ?thesis
    using assms spec_lastIdx_above [of b i] spec_lastIdx_not_skipped [of b i]
    by (simp add: Remove_scan_spec largeBitSet_Remove_eq)
qed

theorem Remove_follows_documented_scan_witness:
  "unat ((70 :: uint32) div 64) < length [5, 64, 0, 256, 0 :: uint64]
   \<and> Remove_scan [5, 64, 0, 256, 0] (uint ((70 :: uint32) div 64)) 70 (int (length [5, 64, 0, 256, 0 :: uint64]) - 1) = Some 3
   \<and> skipped [5, 64, 0, 256, 0] 70 4 \<and> \<not> skipped [5, 64, 0, 256, 0] 70 3
   \<and> Remove (largeBitSet [5, 64, 0, 256, 0]) 70 = Some (largeBitSet [5, 0, 0, 256])"
proof -
  have h: "unat ((70 :: uint32) div 64) < length [5, 64, 0, 256, 0 :: uint64]" by simp
  have l: "spec_lastIdx [5, 64, 0, 256, 0] 70 = 3" by code_simp
  have r: "spec_Remove [5, 64, 0, 256, 0] 70 = largeBitSet [5, 0, 0, 256]" by code_simp
  have s4: "skipped [5, 64, 0, 256, 0] 70 4" by (simp add: skipped_def)
  have s3: "\<not> skipped [5, 64, 0, 256, 0] 70 3" by code_simp
  from Remove_follows_documented_scan [OF h] s3 s4 show ?thesis
    by (simp only: h l r simp_thms)
qed

text \<open>
  Claim C6. \<^verbatim>\<open>Add\<close> of an index \<open>i \<ge> 64\<close> to a small set with word \<open>b\<close> returns a
  slice of exactly \<open>i div 64 + 1\<close> words: word 0 is \<open>b\<close>, word \<open>i div 64\<close> has the bit
  \<open>i mod 64\<close> set and no other, the words between are zero. The receiver is a value
  and the slice is a new array in the store: no array allocated before is changed.
\<close>

theorem inline_Add_promotes:
  assumes "64 \<le> i"
  shows "\<exists>ws. Add (bitSet64 b) i = Some (largeBitSet ws)
    \<and> length ws = unat (i div 64) + 1
    \<and> ws ! 0 = b
    \<and> (\<forall>n. bit (ws ! unat (i div 64)) n \<longleftrightarrow> n = unat (i mod 64))
    \<and> (\<forall>j. 0 < j \<and> j < unat (i div 64) \<longrightarrow> ws ! j = 0)
    \<and> Add_st h (bitSet64V b) i = Some (largeBitSetV (length h), h @ [ws])"
proof -
  define n where "n = unat (i div 64)"
  define ws where "ws = b # replicate (n - 1) 0 @ [shl1 (i mod 64)]"
  have pos: "0 < n" using assms by (simp add: n_def slot_pos)
  have add: "bitSet64_Add b i = Some (largeBitSet ws)"
    using bitSet64_Add_large [OF assms, of b] by (simp add: ws_def n_def)
  have "unat (i mod 64) < 64" using mod64_less [of i] by (simp add: less64_iff)
  moreover have "ws ! n = shl1 (i mod 64)"
    using pos by (simp add: ws_def nth_Cons' nth_append)
  ultimately have bits: "\<forall>k. bit (ws ! n) k \<longleftrightarrow> k = unat (i mod 64)"
    by (auto simp add: bit_shl1)
  have len: "length ws = n + 1" using pos by (simp add: ws_def)
  have first: "ws ! 0 = b" by (simp add: ws_def)
  have mid: "\<forall>j. 0 < j \<and> j < n \<longrightarrow> ws ! j = 0"
    by (auto simp add: ws_def nth_Cons' nth_append)
  have st: "Add_st h (bitSet64V b) i = Some (largeBitSetV (length h), h @ [ws])"
    by (simp add: bitSet64_Add_st_eq add)
  have "Add (bitSet64 b) i = Some (largeBitSet ws)" by (simp add: add)
  with len first bits mid st show ?thesis unfolding n_def [symmetric] by blast
qed

theorem inline_Add_promotes_witness:
  "(64 :: uint32) \<le> 200 \<and> Add (bitSet64 5) 200 = Some (largeBitSet [5, 0, 0, 256])
   \<and> Add_st [ [7, 7] ] (bitSet64V 5) 200 = Some (largeBitSetV 1, [ [7, 7], [5, 0, 0, 256] ])"
proof -
  have h: "(64 :: uint32) \<le> 200" by simp
  have a: "Add (bitSet64 5) 200 = Some (largeBitSet [5, 0, 0, 256])" by code_simp
  from inline_Add_promotes [OF h, of 5 "[ [7, 7] ]"]
  obtain ws where w: "Add (bitSet64 5) 200 = Some (largeBitSet ws)"
    and st: "Add_st [ [7, 7] ] (bitSet64V 5) 200 = Some (largeBitSetV (length [ [7 :: uint64, 7] ]), [ [7, 7] ] @ [ws])"
    by blast
  from w a have "ws = [5, 0, 0, 256]" by (simp only: option.inject Set.inject)
  with st h a show ?thesis by simp
qed

text \<open>
  Claim C7. \<^verbatim>\<open>New().Add(70).Add(200).Remove(200)\<close> is a slice of
  \<open>70 div 64 + 1 = 2\<close> words that has 70 and does not have 200.
\<close>

theorem shrink_concrete:
  "\<exists>ws. do { s \<leftarrow> Add New 70; s \<leftarrow> Add s 200; Remove s 200 } = Some (largeBitSet ws)
     \<and> length ws = 70 div 64 + 1
     \<and> Has (largeBitSet ws) 70 = Some True
     \<and> Has (largeBitSet ws) 200 = Some False"
proof -
  have "do { s \<leftarrow> Add New 70; s \<leftarrow> Add s 200; Remove s 200 } = Some (largeBitSet [0, 64])"
    by code_simp
  moreover have "length [0, 64 :: uint64] = 70 div 64 + 1" by simp
  moreover have "Has (largeBitSet [0, 64]) 70 = Some True" by code_simp
  moreover have "Has (largeBitSet [0, 64]) 200 = Some False" by code_simp
  ultimately show ?thesis by blast
qed

text \<open>
  Claim C10. For every slice \<open>b\<close>, trailing zero words included, and every index whose
  slot is a position of \<open>b\<close>, \<^verbatim>\<open>Remove\<close> returns a small set, or a slice of at least two
  words whose last word is not zero.
\<close>

theorem Remove_in_range_normalizes:
  assumes "unat (i div 64) < length b"
  shows "\<exists>t. Remove (largeBitSet b) i = Some t
    \<and> (case t of bitSet64 w \<Rightarrow> True | largeBitSet ws \<Rightarrow> 2 \<le> length ws \<and> last ws \<noteq> 0)"
proof -
  have "trimmed (spec_Remove b i)" by (rule spec_Remove_trimmed)
  then have "case spec_Remove b i of bitSet64 w \<Rightarrow> True | largeBitSet ws \<Rightarrow> 2 \<le> length ws \<and> last ws \<noteq> 0"
    by (cases "spec_Remove b i") simp_all
  then show ?thesis using largeBitSet_Remove_eq [OF assms] by simp
qed

theorem Remove_in_range_normalizes_witness:
  "unat ((2 :: uint32) div 64) < length [5, 64, 0, 0 :: uint64]
   \<and> Remove (largeBitSet [5, 64, 0, 0]) 2 = Some (largeBitSet [1, 64])"
proof -
  have h: "unat ((2 :: uint32) div 64) < length [5, 64, 0, 0 :: uint64]" by simp
  have r: "Remove (largeBitSet [5, 64, 0, 0]) 2 = Some (largeBitSet [1, 64])" by code_simp
  from Remove_in_range_normalizes [OF h] r h show ?thesis by simp
qed

lemma Has_total: "Has s i = Some (case s of bitSet64 w \<Rightarrow> i < 64 \<and> bit w (unat i)
   | largeBitSet b \<Rightarrow> unat (i div 64) < length b \<and> bit (b ! unat (i div 64)) (unat (i mod 64)))"
  by (cases s) (simp_all add: Has_small Has_large)

lemma Add_total: "\<exists>t. Add s i = Some t"
proof (cases s)
  case (bitSet64 w)
  then show ?thesis
    using bitSet64_Add_small [of i w] bitSet64_Add_large [of i w] by (cases "i < 64") (simp_all add: not_less)
next
  case (largeBitSet b)
  then show ?thesis by (simp add: largeBitSet_Add_eq)
qed

lemma Remove_total: "\<exists>t. Remove s i = Some t"
proof (cases s)
  case (bitSet64 w)
  then show ?thesis by (simp add: bitSet64_Remove_def)
next
  case (largeBitSet b)
  then show ?thesis
    using largeBitSet_Remove_eq [of i b] largeBitSet_Remove_out [of b i]
    by (cases "unat (i div 64) < length b") (simp_all add: not_less)
qed

lemma Remove_out_of_range: "out_of_range s i \<Longrightarrow> Remove s i = Some s"
  by (cases s) (simp_all add: bitSet64_Remove_def largeBitSet_Remove_out)

lemma Has_out_of_range: "out_of_range s i \<Longrightarrow> Has s i = Some False"
  by (cases s) (auto simp add: Has_small Has_large)

lemma Add_large_index:
  assumes "64 \<le> i"
  shows "\<exists>ws. Add s i = Some (largeBitSet ws) \<and> unat (i div 64) < length ws"
proof (cases s)
  case (bitSet64 w)
  then show ?thesis using bitSet64_Add_large [OF assms, of w] slot_pos [OF assms] by simp
next
  case (largeBitSet b)
  then show ?thesis by (simp add: largeBitSet_Add_eq)
qed

section \<open>The representation invariant\<close>

subsection \<open>Add and Remove keep the representation trimmed\<close>

lemma shl1_mod_nonzero: "shl1 (i mod 64) \<noteq> 0"
  by (rule shl1_nonzero) (rule mod64_less)

lemma or_shl1_nonzero: "w OR shl1 (i mod 64) \<noteq> 0"
  using shl1_mod_nonzero [of i] by (simp add: or_eq_0_iff)

lemma largeBitSet_Add_trimmed:
  assumes "2 \<le> length b" "last b \<noteq> 0" "largeBitSet_Add b i = Some t"
  shows "trimmed t"
proof -
  define n where "n = unat (i div 64)"
  define g where "g = b @ replicate (Suc n - length b) 0"
  define ws where "ws = g[n := g ! n OR shl1 (i mod 64)]"
  have t: "t = largeBitSet ws"
    using assms(3) by (simp add: largeBitSet_Add_eq ws_def g_def n_def)
  have len: "length ws = length g" "length b \<le> length g" "n < length g"
    by (simp_all add: ws_def g_def)
  have ne: "ws \<noteq> []" using len assms(1) by (cases ws) simp_all
  have "ws ! (length ws - 1) \<noteq> 0"
  proof (cases "n = length g - 1")
    case True
    then have "ws ! (length ws - 1) = g ! n OR shl1 (i mod 64)"
      using len by (simp add: ws_def)
    then show ?thesis by (simp add: or_shl1_nonzero)
  next
    case False
    then have "n < length g - 1" using len by simp
    then have gb: "g = b" by (simp add: g_def) 
    have "b \<noteq> []" using assms(1) by (cases b) simp_all
    then have "b ! (length b - 1) \<noteq> 0" using assms(2) by (simp add: last_conv_nth)
    with False gb show ?thesis by (simp add: ws_def)
  qed
  then have "last ws \<noteq> 0" by (simp add: last_conv_nth [OF ne])
  with len assms(1) show ?thesis by (simp add: t)
qed

lemma bitSet64_Add_trimmed: "bitSet64_Add b i = Some t \<Longrightarrow> trimmed t"
proof (cases "i < 64")
  case True
  assume "bitSet64_Add b i = Some t"
  with True show ?thesis by (auto simp add: bitSet64_Add_small)
next
  case False
  assume a: "bitSet64_Add b i = Some t"
  from False have ge: "64 \<le> i" by (simp add: not_less)
  from a slot_pos [OF ge] show ?thesis
    by (auto simp add: bitSet64_Add_large [OF ge] shl1_mod_nonzero)
qed

lemma Add_trimmed: "trimmed s \<Longrightarrow> Add s i = Some t \<Longrightarrow> trimmed t"
  by (cases s) (auto intro: bitSet64_Add_trimmed largeBitSet_Add_trimmed)

lemma Remove_trimmed: "trimmed s \<Longrightarrow> Remove s i = Some t \<Longrightarrow> trimmed t"
proof (cases s)
  case (bitSet64 w)
  assume "Remove s i = Some t"
  with bitSet64 show ?thesis by (auto simp add: bitSet64_Remove_def split: if_splits)
next
  case (largeBitSet b)
  assume tr: "trimmed s" and r: "Remove s i = Some t"
  show ?thesis
  proof (cases "unat (i div 64) < length b")
    case True
    with r largeBitSet have "t = spec_Remove b i" by (simp add: largeBitSet_Remove_eq)
    then show ?thesis by (simp add: spec_Remove_trimmed)
  next
    case False
    with r largeBitSet have "t = s" by (simp add: largeBitSet_Remove_out)
    with tr show ?thesis by simp
  qed
qed

lemma Add_addressable: "addressable s \<Longrightarrow> Add s i = Some t \<Longrightarrow> addressable t"
proof (cases s)
  case (bitSet64 w)
  assume a: "Add s i = Some t"
  have n: "unat (i div 64) < 2 ^ 26" using unat_uint32_bound [of i] by (simp add: unat_div64)
  show ?thesis
  proof (cases "i < 64")
    case True
    with a bitSet64 show ?thesis by (auto simp add: bitSet64_Add_small)
  next
    case False
    then have ge: "64 \<le> i" by (simp add: not_less)
    from a bitSet64 n slot_pos [OF ge] show ?thesis
      by (auto simp add: bitSet64_Add_large [OF ge])
  qed
next
  case (largeBitSet b)
  assume a: "Add s i = Some t" and ad: "addressable s"
  have n: "unat (i div 64) < 2 ^ 26" using unat_uint32_bound [of i] by (simp add: unat_div64)
  from a largeBitSet ad n show ?thesis
    by (auto simp add: largeBitSet_Add_eq)
qed

lemma spec_Remove_addressable: "length b \<le> 2 ^ 26 \<Longrightarrow> addressable (spec_Remove b i)"
  by (auto simp add: spec_Remove_def length_clear_target min_def)

lemma Remove_addressable: "addressable s \<Longrightarrow> Remove s i = Some t \<Longrightarrow> addressable t"
proof (cases s)
  case (bitSet64 w)
  assume "Remove s i = Some t"
  with bitSet64 show ?thesis by (auto simp add: bitSet64_Remove_def split: if_splits)
next
  case (largeBitSet b)
  assume ad: "addressable s" and r: "Remove s i = Some t"
  show ?thesis
  proof (cases "unat (i div 64) < length b")
    case True
    with r largeBitSet have "t = spec_Remove b i" by (simp add: largeBitSet_Remove_eq)
    with ad largeBitSet show ?thesis by (simp add: spec_Remove_addressable)
  next
    case False
    with r largeBitSet have "t = s" by (simp add: largeBitSet_Remove_out)
    with ad show ?thesis by simp
  qed
qed

lemma reachable_trimmed: "reachable s \<Longrightarrow> trimmed s \<and> addressable s"
proof (induction rule: reachable.induct)
  case reach_New
  show ?case by (simp add: New_def)
next
  case (reach_Add s i t)
  then show ?case by (blast intro: Add_trimmed Add_addressable)
next
  case (reach_Remove s i t)
  then show ?case by (blast intro: Remove_trimmed Remove_addressable)
qed

subsection \<open>Membership determines a trimmed representation\<close>

lemma nonzero_bit: "(w :: uint64) \<noteq> 0 \<Longrightarrow> \<exists>n<64. bit w n"
proof (rule ccontr)
  assume nz: "w \<noteq> 0" and none: "\<not> (\<exists>n<64. bit w n)"
  have "w = 0"
  proof (rule bit_word_eqI)
    fix n assume "n < LENGTH(64)"
    with none show "bit w n = bit (0 :: uint64) n" by simp
  qed
  with nz show False by simp
qed

lemma index_of_position:
  assumes "j < 2 ^ 26" "n < 64" "k = (of_nat (64 * j + n) :: uint32)"
  shows "unat (k div 64) = j" and "unat (k mod 64) = n"
proof -
  have lt: "64 * j + n < 2 ^ 32" using assms(1,2) by simp
  have "unat k = (64 * j + n) mod 2 ^ LENGTH(32)" unfolding assms(3) by (rule unat_of_nat)
  with lt have u: "unat k = 64 * j + n" by simp
  show "unat (k div 64) = j"
    using assms(2) by (simp add: unat_div64 u)
  show "unat (k mod 64) = n"
    using assms(2) by (simp add: unat_mod64 u)
qed

lemma Has_position:
  assumes "j < 2 ^ 26" "n < 64" "k = (of_nat (64 * j + n) :: uint32)"
  shows "largeBitSet_Has b k = Some (j < length b \<and> bit (b ! j) n)"
  by (simp only: Has_large index_of_position [OF assms])

lemma Has_small_position:
  assumes "n < 64" "k = (of_nat n :: uint32)"
  shows "bitSet64_Has w k = Some (bit w n)"
proof -
  have lt: "n < 2 ^ 32" using assms(1) by simp
  have "unat k = n mod 2 ^ LENGTH(32)" unfolding assms(2) by (rule unat_of_nat)
  with lt have u: "unat k = n" by simp
  then show ?thesis using assms(1) by (simp add: Has_small less64_iff)
qed

lemma top_member:
  assumes "2 \<le> length b" "last b \<noteq> 0" "length b \<le> 2 ^ 26"
  shows "\<exists>k. 64 \<le> k \<and> unat (k div 64) = length b - 1 \<and> Has (largeBitSet b) k = Some True"
proof -
  define j where "j = length b - 1"
  have j: "j < length b" "0 < j" "j < 2 ^ 26" using assms by (simp_all add: j_def)
  have "b \<noteq> []" using assms(1) by (cases b) simp_all
  then have "b ! j \<noteq> 0" using assms(2) by (simp add: last_conv_nth j_def)
  then obtain n where n: "n < 64" "bit (b ! j) n" using nonzero_bit by blast
  define k :: uint32 where "k = of_nat (64 * j + n)"
  have kj: "unat (k div 64) = j" by (rule index_of_position(1) [OF j(3) n(1) k_def])
  have "\<not> k < 64" using kj j(2) slot_zero_iff [of k] by simp
  then have "64 \<le> k" by (simp add: not_less)
  moreover have "Has (largeBitSet b) k = Some True"
    using Has_position [OF j(3) n(1) k_def, of b] j(1) n(2) by simp
  ultimately show ?thesis using kj by (auto simp add: j_def)
qed

lemma is_large_iff_member:
  assumes "trimmed s" "addressable s"
  shows "is_large s \<longleftrightarrow> (\<exists>k. 64 \<le> k \<and> Has s k = Some True)"
proof (cases s)
  case (bitSet64 w)
  have "\<not> (64 \<le> k \<and> k < 64)" for k :: uint32 by (simp add: not_less [symmetric])
  with bitSet64 show ?thesis by (auto simp add: Has_small)
next
  case (largeBitSet b)
  with assms top_member [of b] show ?thesis by auto
qed

lemma length_le_of_members:
  assumes "2 \<le> length c" "last c \<noteq> 0" "length c \<le> 2 ^ 26"
    and "\<forall>k. Has (largeBitSet b) k = Has (largeBitSet c) k"
  shows "length c \<le> length b"
proof -
  from top_member [OF assms(1-3)] obtain k where
    k: "unat (k div 64) = length c - 1" "Has (largeBitSet c) k = Some True" by blast
  with assms(4) have "Has (largeBitSet b) k = Some True" by simp
  then have "unat (k div 64) < length b" by (simp add: Has_large)
  with k(1) show ?thesis by simp
qed

lemma members_determine:
  assumes "trimmed s" "addressable s" "trimmed t" "addressable t"
    and eq: "\<forall>k. Has t k = Has s k"
  shows "t = s"
proof -
  from eq have "(\<exists>k. 64 \<le> k \<and> Has t k = Some True) \<longleftrightarrow> (\<exists>k. 64 \<le> k \<and> Has s k = Some True)"
    by simp
  then have same: "is_large t = is_large s"
    using is_large_iff_member [OF assms(1,2)] is_large_iff_member [OF assms(3,4)] by simp
  show ?thesis
  proof (cases s)
    case s: (bitSet64 w)
    with same obtain v where t: "t = bitSet64 v" by (cases t) simp_all
    have "v = w"
    proof (rule bit_word_eqI)
      fix n assume "n < LENGTH(64)"
      then have n: "n < 64" by simp
      define k :: uint32 where "k = of_nat n"
      from eq have "Has t k = Has s k" by blast
      then show "bit v n = bit w n" by (simp add: s t Has_small_position [OF n k_def])
    qed
    with s t show ?thesis by simp
  next
    case s: (largeBitSet b)
    with same obtain c where t: "t = largeBitSet c" by (cases t) simp_all
    from assms(1,2) s have b: "2 \<le> length b" "last b \<noteq> 0" "length b \<le> 2 ^ 26" by simp_all
    from assms(3,4) t have c: "2 \<le> length c" "last c \<noteq> 0" "length c \<le> 2 ^ 26" by simp_all
    from eq have e1: "\<forall>k. Has (largeBitSet c) k = Has (largeBitSet b) k" by (simp add: s t)
    then have e2: "\<forall>k. Has (largeBitSet b) k = Has (largeBitSet c) k" by simp
    have len: "length c = length b"
      using length_le_of_members [OF b e1] length_le_of_members [OF c e2] by simp
    have "c = b"
    proof (rule nth_equalityI)
      show "length c = length b" by (rule len)
    next
      fix j assume j: "j < length c"
      then have j26: "j < 2 ^ 26" using c(3) by simp
      show "c ! j = b ! j"
      proof (rule bit_word_eqI)
        fix n assume "n < LENGTH(64)"
        then have n: "n < 64" by simp
        define k :: uint32 where "k = of_nat (64 * j + n)"
        from e1 have "Has (largeBitSet c) k = Has (largeBitSet b) k"
          by blast
        then show "bit (c ! j) n = bit (b ! j) n"
          using j len by (simp add: Has_position [OF j26 n k_def])
      qed
    qed
    with s t show ?thesis by simp
  qed
qed

text \<open>
  Claim C9. A value reached from \<^verbatim>\<open>New()\<close> through \<^verbatim>\<open>Add\<close> and \<^verbatim>\<open>Remove\<close> alone is,
  when it is a slice, of at least two words with a last word that is not zero. So it is
  a slice exactly when it has a member from 64 on, and two such values with the same
  members are the same representation.
\<close>

theorem reachable_representation_canonical:
  assumes "reachable s"
  shows "(case s of bitSet64 w \<Rightarrow> True | largeBitSet b \<Rightarrow> 2 \<le> length b \<and> last b \<noteq> 0)
    \<and> (is_large s \<longleftrightarrow> (\<exists>k. 64 \<le> k \<and> Has s k = Some True))
    \<and> (\<forall>t. reachable t \<and> (\<forall>k. Has t k = Has s k) \<longrightarrow> t = s)"
proof -
  from reachable_trimmed [OF assms] have inv: "trimmed s" "addressable s" by simp_all
  have "case s of bitSet64 w \<Rightarrow> True | largeBitSet b \<Rightarrow> 2 \<le> length b \<and> last b \<noteq> 0"
    using inv(1) by (cases s) simp_all
  moreover have "is_large s \<longleftrightarrow> (\<exists>k. 64 \<le> k \<and> Has s k = Some True)"
    by (rule is_large_iff_member [OF inv])
  moreover have "\<forall>t. reachable t \<and> (\<forall>k. Has t k = Has s k) \<longrightarrow> t = s"
    using members_determine [OF inv] reachable_trimmed by blast
  ultimately show ?thesis by blast
qed

theorem reachable_representation_canonical_witness:
  "reachable (largeBitSet [0, 64])
   \<and> 2 \<le> length [0, 64 :: uint64] \<and> last [0, 64 :: uint64] \<noteq> 0
   \<and> (\<exists>k. 64 \<le> k \<and> Has (largeBitSet [0, 64]) k = Some True)
   \<and> (reachable (largeBitSet [0, 64]) \<and> (\<forall>k. Has (largeBitSet [0, 64]) k = Has (largeBitSet [0, 64]) k))"
proof -
  have a: "Add New 70 = Some (largeBitSet [0, 64])" by code_simp
  have r: "reachable (largeBitSet [0, 64])" by (rule reach_Add [OF reach_New a])
  from reachable_representation_canonical [OF r] r show ?thesis by simp
qed

section \<open>Add followed by Remove\<close>

lemma or_shl1_eq_shl1:
  assumes "w AND shl1 s = 0" "w OR shl1 s = shl1 s"
  shows "w = 0"
proof -
  have "(w OR shl1 s) AND NOT (shl1 s) = w" using assms(1) by (rule or_and_not_shl1)
  with assms(2) show ?thesis by simp
qed

lemma round_trip_small_small:
  assumes "i < 64" "bitSet64_Has w i = Some False"
  shows "Remove (bitSet64 (w OR shl1 i)) i = Some (bitSet64 w)"
proof -
  from assms have "w AND shl1 i = 0" by (simp add: bitSet64_Has_def not_le split: if_splits)
  then have "(w OR shl1 i) AND NOT (shl1 i) = w" by (rule or_and_not_shl1)
  moreover have "\<not> 64 \<le> i" using assms(1) by (simp add: not_le)
  ultimately show ?thesis by (simp add: bitSet64_Remove_def)
qed

lemma round_trip_small_large:
  assumes "64 \<le> i"
  shows "Remove (largeBitSet (w # replicate (unat (i div 64) - 1) 0 @ [shl1 (i mod 64)])) i = Some (bitSet64 w)"
proof -
  define n where "n = unat (i div 64)"
  define z where "z = w # replicate (n - 1) 0 @ [shl1 (i mod 64)]"
  have pos: "0 < n" using assms by (simp add: n_def slot_pos)
  have len: "length z = Suc n" using pos by (simp add: z_def)
  have zn: "z ! n = shl1 (i mod 64)" using pos by (simp add: z_def nth_Cons' nth_append)
  have zmid: "z ! j = 0" if "0 < j" "j < n" for j
  proof -
    from that have "j - 1 < n - 1" by simp
    with that show ?thesis by (simp add: z_def nth_Cons' nth_append)
  qed
  have sk: "skipped z i j" if "0 < j" "j < length z" for j
  proof (cases "j = n")
    case True
    then show ?thesis by (simp add: skipped_def zn n_def [symmetric])
  next
    case False
    with that len have "j < n" by simp
    with that(1) show ?thesis by (simp add: skipped_def zmid)
  qed
  have l0: "spec_lastIdx z i \<le> 0"
  proof (rule ccontr)
    assume "\<not> spec_lastIdx z i \<le> 0"
    then have p: "0 \<le> spec_lastIdx z i" "0 < nat (spec_lastIdx z i)" by simp_all
    have "nat (spec_lastIdx z i) < length z" using spec_lastIdx_bounds [of z i] p by simp
    from sk [OF p(2) this] spec_lastIdx_not_skipped [OF p(1)] show False by simp
  qed
  have "unat (i div 64) < length z" using len by (simp add: n_def)
  then have "largeBitSet_Remove z i = Some (spec_Remove z i)" by (rule largeBitSet_Remove_eq)
  moreover have "spec_Remove z i = bitSet64 w"
    using l0 pos by (simp add: spec_Remove_def n_def [symmetric] z_def)
  ultimately show ?thesis by (simp add: z_def n_def [symmetric])
qed

lemma round_trip_large:
  assumes "2 \<le> length b" "last b \<noteq> 0" "largeBitSet_Has b i = Some False"
  shows "Remove (largeBitSet ((b @ replicate (Suc (unat (i div 64)) - length b) 0)
        [unat (i div 64) := (b @ replicate (Suc (unat (i div 64)) - length b) 0) ! unat (i div 64) OR shl1 (i mod 64)])) i
      = Some (largeBitSet b)"
proof -
  define n where "n = unat (i div 64)"
  define m where "m = shl1 (i mod 64)"
  define g where "g = b @ replicate (Suc n - length b) 0"
  define ws where "ws = g[n := g ! n OR m]"
  define j where "j = length b - 1"
  have ne: "b \<noteq> []" using assms(1) by (cases b) simp_all
  have j: "0 < j" "j < length b" "b ! j \<noteq> 0"
    using assms(1,2) by (simp_all add: j_def last_conv_nth [OF ne])
  have len: "length ws = max (length b) (Suc n)" by (simp add: ws_def g_def max_def)
  have ng: "n < length g" by (simp add: g_def)
  have gn_disj: "g ! n AND m = 0"
  proof (cases "n < length b")
    case True
    with assms(3) have "\<not> bit (b ! n) (unat (i mod 64))" by (simp add: Has_large n_def)
    moreover have "g ! n = b ! n" using True by (simp add: g_def nth_append)
    ultimately show ?thesis
      using and_shl1_nonzero [of "g ! n" "i mod 64"] by (auto simp add: m_def)
  next
    case False
    then have "g ! n = 0" by (simp add: g_def nth_append)
    then show ?thesis by simp
  qed
  have wsj: "ws ! j \<noteq> 0 \<and> (j = n \<longrightarrow> ws ! j \<noteq> m)"
  proof (cases "j = n")
    case True
    then have gj: "g ! n = b ! j" using j(2) by (simp add: g_def nth_append)
    have v: "ws ! j = b ! j OR m" using True ng by (simp add: ws_def gj)
    have "b ! j OR m \<noteq> m"
      using or_shl1_eq_shl1 [of "b ! j" "i mod 64"] gn_disj j(3) by (auto simp add: gj m_def)
    moreover have "b ! j OR m \<noteq> 0" using j(3) by (simp add: or_eq_0_iff)
    ultimately show ?thesis by (simp only: v simp_thms)
  next
    case False
    then have "ws ! j = b ! j" using j(2) by (simp add: ws_def g_def nth_append)
    with False j(3) show ?thesis by simp
  qed
  have above: "skipped ws i k" if "j < k" "k < length ws" for k
  proof -
    from that have kb: "length b \<le> k" and kn: "k \<le> n" by (simp_all add: j_def len)
    show ?thesis
    proof (cases "k = n")
      case True
      then have "g ! n = 0" using kb by (simp add: g_def nth_append)
      then have "ws ! k = m" using True ng by (simp add: ws_def)
      with True show ?thesis by (simp add: skipped_def m_def [symmetric] n_def [symmetric])
    next
      case False
      then have "ws ! k = 0" using kb kn by (simp add: ws_def g_def nth_append)
      then show ?thesis by (simp add: skipped_def)
    qed
  qed
  have jl: "j < length ws" using j(2) by (simp add: len)
  have "\<not> skipped ws i j" using wsj by (auto simp add: skipped_def m_def [symmetric] n_def [symmetric])
  from spec_lastIdxI [OF jl this above] have l: "spec_lastIdx ws i = int j" by simp
  have ct: "clear_target ws i = g"
  proof -
    have "(g ! n OR m) AND NOT m = g ! n"
      using gn_disj unfolding m_def by (rule or_and_not_shl1)
    then show ?thesis using ng
      by (simp add: clear_target_def ws_def n_def [symmetric] m_def [symmetric])
  qed
  have "take (Suc j) g = b" using j(2) by (simp add: g_def j_def)
  then have "spec_Remove ws i = largeBitSet b"
    using j(1) by (simp add: spec_Remove_def l ct nat_add_distrib)
  moreover have "unat (i div 64) < length ws" by (simp add: len n_def)
  then have "largeBitSet_Remove ws i = Some (spec_Remove ws i)" by (rule largeBitSet_Remove_eq)
  ultimately show ?thesis by (simp add: ws_def g_def n_def [symmetric] m_def [symmetric])
qed

text \<open>
  Claim C2, as amended. For every set \<open>S\<close> that is small, or a slice of at least two
  words with a last word that is not zero, and every index \<open>i\<close> that \<open>S\<close> does not
  have, \<^verbatim>\<open>S.Add(i).Remove(i)\<close> is \<open>S\<close> again: the same word, or the same sequence of
  words.
\<close>

theorem Add_Remove_round_trip:
  assumes "trimmed S" "Has S i = Some False"
  shows "\<exists>T. Add S i = Some T \<and> Remove T i = Some S"
proof (cases S)
  case (bitSet64 w)
  show ?thesis
  proof (cases "i < 64")
    case True
    with assms(2) bitSet64 show ?thesis
      using round_trip_small_small [of i w] by (simp add: bitSet64_Add_small)
  next
    case False
    then have ge: "64 \<le> i" by (simp add: not_less)
    from bitSet64 show ?thesis
      using round_trip_small_large [OF ge, of w] by (simp add: bitSet64_Add_large [OF ge])
  qed
next
  case (largeBitSet b)
  with assms have "2 \<le> length b" "last b \<noteq> 0" "largeBitSet_Has b i = Some False" by simp_all
  from round_trip_large [OF this] largeBitSet show ?thesis
    by (simp add: largeBitSet_Add_eq)
qed

theorem Add_Remove_round_trip_witness:
  "trimmed (largeBitSet [0, 64]) \<and> Has (largeBitSet [0, 64]) 200 = Some False
   \<and> Add (largeBitSet [0, 64]) 200 = Some (largeBitSet [0, 64, 0, 256])
   \<and> Remove (largeBitSet [0, 64, 0, 256]) 200 = Some (largeBitSet [0, 64])"
proof -
  have t: "trimmed (largeBitSet [0, 64])" by simp
  have h: "Has (largeBitSet [0, 64]) 200 = Some False" by code_simp
  have a: "Add (largeBitSet [0, 64]) 200 = Some (largeBitSet [0, 64, 0, 256])" by code_simp
  from Add_Remove_round_trip [OF t h] obtain T
    where "Add (largeBitSet [0, 64]) 200 = Some T" "Remove T 200 = Some (largeBitSet [0, 64])"
    by blast
  with a have "Remove (largeBitSet [0, 64, 0, 256]) 200 = Some (largeBitSet [0, 64])"
    by (simp only: option.inject)
  with t h a show ?thesis by (simp only: simp_thms)
qed

text \<open>
  Claim C2 as stated, for every set, fails on a slice with trailing zero words:
  \<^verbatim>\<open>NewBuilder(100).Build()\<close> is the slice of two zero words, it does not have 200,
  and \<^verbatim>\<open>Add(200)\<close> followed by \<^verbatim>\<open>Remove(200)\<close> returns the small empty set, which is
  another representation.
\<close>

theorem round_trip_counterexample:
  "NewBuilder 100 = Some (bitSetBuilder [0, 0])
   \<and> Build (bitSetBuilder [0, 0]) = largeBitSet [0, 0]
   \<and> Has (largeBitSet [0, 0]) 200 = Some False
   \<and> Add (largeBitSet [0, 0]) 200 = Some (largeBitSet [0, 0, 0, 256])
   \<and> Remove (largeBitSet [0, 0, 0, 256]) 200 = Some (bitSet64 0)
   \<and> bitSet64 0 \<noteq> largeBitSet [0, 0]"
proof -
  have "NewBuilder 100 = Some (bitSetBuilder [0, 0])" by code_simp
  moreover have "Build (bitSetBuilder [0, 0]) = largeBitSet [0, 0]" by simp
  moreover have "Has (largeBitSet [0, 0]) 200 = Some False" by code_simp
  moreover have "Add (largeBitSet [0, 0]) 200 = Some (largeBitSet [0, 0, 0, 256])" by code_simp
  moreover have "Remove (largeBitSet [0, 0, 0, 256]) 200 = Some (bitSet64 0)" by code_simp
  moreover have "bitSet64 0 \<noteq> largeBitSet [0, 0]" by simp
  ultimately show ?thesis by (simp only: simp_thms)
qed

section \<open>Builders\<close>

subsection \<open>Membership after Add\<close>

lemma index_eq_iff:
  "(k :: uint32) = i \<longleftrightarrow> unat (k div 64) = unat (i div 64) \<and> unat (k mod 64) = unat (i mod 64)"
proof
  assume "k = i"
  then show "unat (k div 64) = unat (i div 64) \<and> unat (k mod 64) = unat (i mod 64)" by simp
next
  assume a: "unat (k div 64) = unat (i div 64) \<and> unat (k mod 64) = unat (i mod 64)"
  have "unat k = 64 * (unat k div 64) + unat k mod 64" by simp
  also have "\<dots> = 64 * (unat i div 64) + unat i mod 64" using a by (simp add: unat_div64 unat_mod64)
  also have "\<dots> = unat i" by simp
  finally show "k = i" by (simp add: word_unat_eq_iff)
qed

lemma unat_mod64_less: "unat ((k :: uint32) mod 64) < 64"
  by (simp add: unat_mod64)

lemma bit_padded:
  "j < length (b @ replicate r (0 :: uint64)) \<and> bit ((b @ replicate r 0) ! j) x
     \<longleftrightarrow> j < length b \<and> bit (b ! j) x"
  by (auto simp add: nth_append)

lemma Has_after_largeBitSet_Add:
  assumes "largeBitSet_Add b i = Some t"
  shows "Has t k = Some (k = i \<or> largeBitSet_Has b k = Some True)"
proof -
  define n where "n = unat (i div 64)"
  define J where "J = unat (k div 64)"
  define X where "X = unat (k mod 64)"
  define g where "g = b @ replicate (Suc n - length b) 0"
  define ws where "ws = g[n := g ! n OR shl1 (i mod 64)]"
  have t: "t = largeBitSet ws"
    using assms by (simp add: largeBitSet_Add_eq ws_def g_def n_def)
  have X: "X < 64" by (simp add: X_def unat_mod64_less)
  have ng: "n < length g" by (simp add: g_def)
  have pad: "J < length g \<and> bit (g ! J) X \<longleftrightarrow> J < length b \<and> bit (b ! J) X"
    unfolding g_def by (rule bit_padded)
  have ki: "k = i \<longleftrightarrow> J = n \<and> X = unat (i mod 64)"
    by (simp add: index_eq_iff [of k i] J_def X_def n_def)
  have "J < length ws \<and> bit (ws ! J) X \<longleftrightarrow> k = i \<or> (J < length b \<and> bit (b ! J) X)"
  proof (cases "J = n")
    case True
    have "bit (ws ! J) X \<longleftrightarrow> bit (g ! J) X \<or> X = unat (i mod 64)"
      using True ng X by (auto simp add: ws_def bit_or_iff bit_shl1)
    with True ng pad ki show ?thesis by (auto simp add: ws_def)
  next
    case False
    then have "ws ! J = g ! J" by (simp add: ws_def)
    with False pad ki show ?thesis by (auto simp add: ws_def)
  qed
  then show ?thesis
    by (simp add: t Has_large J_def [symmetric] X_def [symmetric])
qed

lemma Has_after_bitSet64_Add:
  assumes "bitSet64_Add w i = Some t"
  shows "Has t k = Some (k = i \<or> bitSet64_Has w k = Some True)"
proof (cases "i < 64")
  case True
  with assms have t: "t = bitSet64 (w OR shl1 i)" by (simp add: bitSet64_Add_small)
  have "k < 64 \<and> bit (w OR shl1 i) (unat k) \<longleftrightarrow> k = i \<or> (k < 64 \<and> bit w (unat k))"
    using True by (auto simp add: bit_or_iff bit_shl1 less64_iff word_unat_eq_iff)
  then show ?thesis by (simp add: t Has_small)
next
  case False
  then have ge: "64 \<le> i" by (simp add: not_less)
  define n where "n = unat (i div 64)"
  define J where "J = unat (k div 64)"
  define X where "X = unat (k mod 64)"
  define ws where "ws = w # replicate (n - 1) 0 @ [shl1 (i mod 64)]"
  have pos: "0 < n" using ge by (simp add: n_def slot_pos)
  have t: "t = largeBitSet ws"
    using assms by (simp add: bitSet64_Add_large [OF ge] ws_def n_def)
  have X: "X < 64" by (simp add: X_def unat_mod64_less)
  have len: "length ws = Suc n" using pos by (simp add: ws_def)
  have ki: "k = i \<longleftrightarrow> J = n \<and> X = unat (i mod 64)"
    by (simp add: index_eq_iff [of k i] J_def X_def n_def)
  have J0: "J = 0 \<longleftrightarrow> k < 64" by (simp add: J_def slot_zero_iff)
  have "J < length ws \<and> bit (ws ! J) X \<longleftrightarrow> k = i \<or> (k < 64 \<and> bit w (unat k))"
  proof (cases "J = 0")
    case True
    then have k: "k < 64" using J0 by simp
    then have "X = unat k" by (simp add: X_def mod64_id)
    with True k pos ki len show ?thesis by (simp add: ws_def)
  next
    case False
    then have nk: "\<not> k < 64" using J0 by simp
    show ?thesis
    proof (cases "J = n")
      case True
      then have "ws ! J = shl1 (i mod 64)" using pos by (simp add: ws_def nth_Cons' nth_append)
      with True nk ki X len show ?thesis by (auto simp add: bit_shl1)
    next
      case Jn: False
      have "J < length ws \<longrightarrow> ws ! J = 0"
      proof
        assume "J < length ws"
        with len Jn False have "J - 1 < n - 1" by simp
        with False show "ws ! J = 0" by (simp add: ws_def nth_Cons' nth_append)
      qed
      with Jn nk ki show ?thesis by auto
    qed
  qed
  then show ?thesis
    by (simp add: t Has_large Has_small J_def [symmetric] X_def [symmetric])
qed

lemma Has_after_Add:
  "Add s i = Some t \<Longrightarrow> Has t k = Some (k = i \<or> Has s k = Some True)"
  by (cases s) (simp_all add: Has_after_bitSet64_Add Has_after_largeBitSet_Add)

lemma Has_after_Add_all:
  "Add_all s bitIndices = Some t \<Longrightarrow> Has t k = Some (k \<in> set bitIndices \<or> Has s k = Some True)"
proof (induction bitIndices arbitrary: s)
  case Nil
  then show ?case using Has_total [of s k] by auto
next
  case (Cons i bitIndices)
  from Add_total [of s i] obtain u where u: "Add s i = Some u" by blast
  with Cons.prems have "Add_all u bitIndices = Some t" by simp
  from Cons.IH [OF this] Has_after_Add [OF u, of k] show ?case by auto
qed

subsection \<open>A builder and the set it builds\<close>

lemma With_Build: "map_option Build (With bld i) = Add (Build bld) i"
proof (cases bld)
  case (bitSet64_Builder w)
  show ?thesis
  proof (cases "i < 64")
    case True
    with bitSet64_Builder show ?thesis by (simp add: bitSet64_With_def bitSet64_Add_small)
  next
    case False
    then have ge: "64 \<le> i" by (simp add: not_less)
    from False bitSet64_Builder show ?thesis
      by (simp add: bitSet64_With_def bitSet64_Add_large [OF ge])
  qed
next
  case (bitSetBuilder b)
  show ?thesis
  proof (cases "unat (i div 64) < length b")
    case True
    then have "Suc (unat (i div 64)) - length b = 0" by simp
    with True bitSetBuilder show ?thesis
      by (simp add: bitSetBuilder_With_def uint_less_int go_index_uint go_assign_uint largeBitSet_Add_eq)
  next
    case False
    with bitSetBuilder show ?thesis
      by (simp add: bitSetBuilder_With_def uint_less_int largeBitSet_Add_eq)
  qed
qed

lemma WithMany_Build: "map_option Build (WithMany bld bitIndices) = Add_all (Build bld) bitIndices"
proof (induction bitIndices arbitrary: bld)
  case Nil
  show ?case by simp
next
  case (Cons i bitIndices)
  from Add_total [of "Build bld" i] obtain t where t: "Add (Build bld) i = Some t" by blast
  with With_Build [of bld i] obtain bld' where b: "With bld i = Some bld'" "Build bld' = t"
    by (cases "With bld i") simp_all
  from Cons.IH [of bld'] b t show ?case by simp
qed

lemma Add_all_total: "\<exists>t. Add_all s bitIndices = Some t"
proof (induction bitIndices arbitrary: s)
  case Nil
  show ?case by simp
next
  case (Cons i bitIndices)
  from Add_total [of s i] obtain u where "Add s i = Some u" by blast
  with Cons.IH [of u] show ?case by simp
qed

lemma NewBuilder_small: "sint minCapacity \<le> 64 \<Longrightarrow> NewBuilder minCapacity = Some (bitSet64_Builder 0)"
  by (simp add: NewBuilder_def)

lemma With_total: "\<exists>bld'. With bld i = Some bld'"
proof -
  from Add_total [of "Build bld" i] obtain t where "Add (Build bld) i = Some t" by blast
  with With_Build [of bld i] show ?thesis by (cases "With bld i") simp_all
qed

lemma WithMany_total: "\<exists>bld'. WithMany bld bitIndices = Some bld'"
proof -
  from Add_all_total [of "Build bld" bitIndices] obtain t where "Add_all (Build bld) bitIndices = Some t"
    by blast
  with WithMany_Build [of bld bitIndices] show ?thesis by (cases "WithMany bld bitIndices") simp_all
qed

text \<open>
  Claim C8. For every set and every \<^verbatim>\<open>uint32\<close> index, \<^verbatim>\<open>Has\<close>, \<^verbatim>\<open>Add\<close> and
  \<^verbatim>\<open>Remove\<close> return a result and do not panic; so do \<^verbatim>\<open>With\<close> and \<^verbatim>\<open>WithMany\<close> on
  every builder. On an index out of the range of the representation \<^verbatim>\<open>Has\<close> is
  false and \<^verbatim>\<open>Remove\<close> returns the receiver unchanged; \<^verbatim>\<open>Add\<close> of an index from 64
  on returns a slice long enough to hold its slot.
\<close>

theorem operations_total:
  "(\<exists>r. Has s i = Some r) \<and> (\<exists>t. Add s i = Some t) \<and> (\<exists>t. Remove s i = Some t)
   \<and> (\<exists>bld'. With bld i = Some bld') \<and> (\<exists>bld'. WithMany bld bitIndices = Some bld')
   \<and> (out_of_range s i \<longrightarrow> Has s i = Some False \<and> Remove s i = Some s)
   \<and> (64 \<le> i \<longrightarrow> (\<exists>ws. Add s i = Some (largeBitSet ws) \<and> unat (i div 64) < length ws))"
  using Has_total [of s i] Add_total [of s i] Remove_total [of s i]
    Remove_out_of_range [of s i] Has_out_of_range [of s i] Add_large_index [of i s]
    With_total [of bld i] WithMany_total [of bld bitIndices]
  by simp

theorem operations_total_witness:
  "out_of_range (largeBitSet [0, 64]) 200 \<and> (64 :: uint32) \<le> 200
   \<and> Has (largeBitSet [0, 64]) 200 = Some False
   \<and> Remove (largeBitSet [0, 64]) 200 = Some (largeBitSet [0, 64])
   \<and> (\<exists>ws. Add (largeBitSet [0, 64]) 200 = Some (largeBitSet ws) \<and> unat ((200 :: uint32) div 64) < length ws)
   \<and> (\<exists>bld'. With (bitSetBuilder [0, 64]) 200 = Some bld')"
proof -
  have h: "out_of_range (largeBitSet [0, 64]) 200" by simp
  have g: "(64 :: uint32) \<le> 200" by simp
  from operations_total [of "largeBitSet [0, 64]" 200 "bitSetBuilder [0, 64]" "[]"] h g
  show ?thesis by blast
qed

text \<open>
  Claim C5. For every finite sequence of \<^verbatim>\<open>uint32\<close> indices,
  \<^verbatim>\<open>NewBuilder(0).WithMany(indices...).Build()\<close> returns a set, the set has exactly the
  indices of the sequence, and it is the very representation that repeated \<^verbatim>\<open>Add\<close>
  from \<^verbatim>\<open>New()\<close> over the same sequence returns.
\<close>

theorem builder_equivalence:
  "\<exists>S. do { bld \<leftarrow> NewBuilder 0; bld \<leftarrow> WithMany bld bitIndices; Some (Build bld) } = Some S
     \<and> Add_all New bitIndices = Some S
     \<and> (\<forall>i. Has S i = Some (i \<in> set bitIndices))"
proof -
  from Add_all_total [of New bitIndices] obtain S where S: "Add_all New bitIndices = Some S" by blast
  have nb: "NewBuilder 0 = Some (bitSet64_Builder 0)" by (simp add: NewBuilder_small)
  have "map_option Build (WithMany (bitSet64_Builder 0) bitIndices) = Some S"
    using WithMany_Build [of "bitSet64_Builder 0" bitIndices] S by (simp add: New_def)
  then have "do { bld \<leftarrow> NewBuilder 0; bld \<leftarrow> WithMany bld bitIndices; Some (Build bld) } = Some S"
    by (cases "WithMany (bitSet64_Builder 0) bitIndices") (simp_all add: nb)
  moreover have "\<forall>i. Has S i = Some (i \<in> set bitIndices)"
  proof
    fix i
    have "Has New i = Some False" by (simp add: New_def Has_small)
    with Has_after_Add_all [OF S, of i] show "Has S i = Some (i \<in> set bitIndices)" by simp
  qed
  ultimately show ?thesis using S by blast
qed

theorem builder_equivalence_witness:
  "do { bld \<leftarrow> NewBuilder 0; bld \<leftarrow> WithMany bld [3, 200, 70, 3]; Some (Build bld) }
     = Some (largeBitSet [8, 64, 0, 256])
   \<and> Add_all New [3, 200, 70, 3] = Some (largeBitSet [8, 64, 0, 256])
   \<and> Has (largeBitSet [8, 64, 0, 256]) 70 = Some True
   \<and> Has (largeBitSet [8, 64, 0, 256]) 71 = Some False"
proof -
  have a: "Add_all New [3, 200, 70, 3] = Some (largeBitSet [8, 64, 0, 256])" by code_simp
  from builder_equivalence [of "[3, 200, 70, 3]"] obtain S where
    S: "do { bld \<leftarrow> NewBuilder 0; bld \<leftarrow> WithMany bld [3, 200, 70, 3]; Some (Build bld) } = Some S"
      "Add_all New [3, 200, 70, 3] = Some S" "\<forall>i. Has S i = Some (i \<in> set [3, 200, 70, 3])"
    by blast
  from S(2) a have e: "S = largeBitSet [8, 64, 0, 256]" by (simp only: option.inject)
  from S(3) have "Has S 70 = Some ((70 :: uint32) \<in> set [3, 200, 70, 3])"
    and "Has S 71 = Some ((71 :: uint32) \<in> set [3, 200, 70, 3])" by blast+
  then have "Has S 70 = Some True" "Has S 71 = Some False" by simp_all
  with S(1) a show ?thesis unfolding e by (simp only: simp_thms)
qed

section \<open>Immutability in the store\<close>

lemma alloc_extends:
  assumes "alloc h t = (T, h')"
  shows "take (length h) h' = h" and "load h' T = Some t"
    and "a < length h \<Longrightarrow> deref h' a = deref h a"
  using assms by (cases t; auto simp add: deref_def nth_append)+

lemma load_after_extension:
  assumes "load h S = Some s" "\<And>a. a < length h \<Longrightarrow> deref h' a = deref h a"
  shows "load h' S = load h S" and "Has_st h' S k = Has_st h S k"
proof -
  show "load h' S = load h S"
  proof (cases S)
    case (bitSet64V w)
    then show ?thesis by simp
  next
    case (largeBitSetV a)
    with assms(1) have "a < length h" by (auto simp add: deref_def split: if_splits)
    with assms(2) largeBitSetV show ?thesis by simp
  qed
  show "Has_st h' S k = Has_st h S k"
  proof (cases S)
    case (bitSet64V w)
    then show ?thesis by simp
  next
    case (largeBitSetV a)
    with assms(1) obtain b where b: "deref h a = Some b" by auto
    then have "deref h' a = Some b" using assms(2) [of a] by (simp add: deref_less)
    with b largeBitSetV show ?thesis by (simp add: largeBitSet_Has_st_eq)
  qed
qed

lemma Add_st_result:
  assumes "load h S = Some s"
  shows "\<exists>t. Add s i = Some t \<and> Add_st h S i = Some (alloc h t)"
proof (cases S)
  case (bitSet64V w)
  with assms have s: "s = bitSet64 w" by auto
  from Add_total [of s i] obtain t where "Add s i = Some t" by blast
  with s bitSet64V show ?thesis by (simp add: bitSet64_Add_st_eq)
next
  case (largeBitSetV a)
  with assms obtain b where b: "deref h a = Some b" "s = largeBitSet b" by auto
  from Add_total [of s i] obtain t where "Add s i = Some t" by blast
  with b largeBitSetV show ?thesis by (simp add: largeBitSet_Add_st_eq [OF b(1)])
qed

lemma Remove_st_result:
  assumes "load h S = Some s"
  shows "\<exists>t. Remove s i = Some t \<and>
    (Remove_st h S i = Some (alloc h t) \<or> (t = s \<and> Remove_st h S i = Some (S, h)))"
proof (cases S)
  case (bitSet64V w)
  with assms have s: "s = bitSet64 w" by auto
  from s bitSet64V show ?thesis
    by (simp add: bitSet64_Remove_st_def bitSet64_Remove_def)
next
  case (largeBitSetV a)
  with assms obtain b where b: "deref h a = Some b" "s = largeBitSet b" by auto
  show ?thesis
  proof (cases "unat (i div 64) < length b")
    case True
    from Remove_total [of s i] obtain t where "Remove s i = Some t" by blast
    with True b largeBitSetV show ?thesis by (simp add: largeBitSet_Remove_st_eq [OF b(1)])
  next
    case False
    then have "Remove s i = Some s" by (simp add: b largeBitSet_Remove_out)
    with False b largeBitSetV show ?thesis by (simp add: largeBitSet_Remove_st_eq [OF b(1)])
  qed
qed

text \<open>
  The store does record a write into an existing array: \<^verbatim>\<open>bitSetBuilder.With\<close>
  changes the array of its receiver.
\<close>

lemma bitSetBuilder_With_writes_in_place:
  "bitSetBuilder_With_st [ [0, 0] ] 0 5 = Some (0, [ [32, 0] ])"
  by code_simp

text \<open>
  Claim C4. For a set \<open>S\<close> held in a store and every index, \<^verbatim>\<open>S.Add(i)\<close> and
  \<^verbatim>\<open>S.Remove(i)\<close>, run statement by statement over the store, return a result; every
  \<^verbatim>\<open>copy\<close> and indexed write of theirs goes into the array that their own \<^verbatim>\<open>make\<close>
  allocated, so every array allocated before the call is the same after it, \<open>S\<close>
  denotes the same words and \<^verbatim>\<open>S.Has(k)\<close> answers the same for every \<open>k\<close>; the
  value returned denotes what \<^verbatim>\<open>Add\<close> or \<^verbatim>\<open>Remove\<close> computes.
\<close>

theorem Add_Remove_leave_receiver_unchanged:
  assumes "load h S = Some s"
  shows "(\<exists>T h'. Add_st h S i = Some (T, h') \<and> take (length h) h' = h
            \<and> load h' S = load h S \<and> (\<forall>k. Has_st h' S k = Has_st h S k)
            \<and> load h' T = Add s i)
       \<and> (\<exists>T h'. Remove_st h S i = Some (T, h') \<and> take (length h) h' = h
            \<and> load h' S = load h S \<and> (\<forall>k. Has_st h' S k = Has_st h S k)
            \<and> load h' T = Remove s i)"
proof
  from Add_st_result [OF assms, of i] obtain t where
    t: "Add s i = Some t" "Add_st h S i = Some (alloc h t)" by blast
  obtain T h' where al: "alloc h t = (T, h')" by (cases "alloc h t")
  note ext = alloc_extends [OF al]
  have "load h' S = load h S" "\<forall>k. Has_st h' S k = Has_st h S k"
    using load_after_extension [OF assms ext(3)] by simp_all
  with t al ext(1,2) show "\<exists>T h'. Add_st h S i = Some (T, h') \<and> take (length h) h' = h
            \<and> load h' S = load h S \<and> (\<forall>k. Has_st h' S k = Has_st h S k)
            \<and> load h' T = Add s i"
    by simp
next
  from Remove_st_result [OF assms, of i] obtain t where
    t: "Remove s i = Some t"
      "Remove_st h S i = Some (alloc h t) \<or> (t = s \<and> Remove_st h S i = Some (S, h))" by blast
  from t(2) show "\<exists>T h'. Remove_st h S i = Some (T, h') \<and> take (length h) h' = h
            \<and> load h' S = load h S \<and> (\<forall>k. Has_st h' S k = Has_st h S k)
            \<and> load h' T = Remove s i"
  proof
    assume r: "Remove_st h S i = Some (alloc h t)"
    obtain T h' where al: "alloc h t = (T, h')" by (cases "alloc h t")
    note ext = alloc_extends [OF al]
    have "load h' S = load h S" "\<forall>k. Has_st h' S k = Has_st h S k"
      using load_after_extension [OF assms ext(3)] by simp_all
    with t(1) r al ext(1,2) show ?thesis by simp
  next
    assume "t = s \<and> Remove_st h S i = Some (S, h)"
    with t(1) assms show ?thesis by simp
  qed
qed

theorem Add_Remove_leave_receiver_unchanged_witness:
  "load [ [0, 64, 0, 256] ] (largeBitSetV 0) = Some (largeBitSet [0, 64, 0, 256])
   \<and> Add_st [ [0, 64, 0, 256] ] (largeBitSetV 0) 5 = Some (largeBitSetV 1, [ [0, 64, 0, 256], [32, 64, 0, 256] ])
   \<and> Remove_st [ [0, 64, 0, 256] ] (largeBitSetV 0) 200 = Some (largeBitSetV 1, [ [0, 64, 0, 256], [0, 64] ])
   \<and> (\<exists>T h'. Add_st [ [0, 64, 0, 256] ] (largeBitSetV 0) 5 = Some (T, h')
         \<and> load h' (largeBitSetV 0) = load [ [0, 64, 0, 256] ] (largeBitSetV 0))
   \<and> (\<exists>T h'. Remove_st [ [0, 64, 0, 256] ] (largeBitSetV 0) 200 = Some (T, h')
         \<and> load h' (largeBitSetV 0) = load [ [0, 64, 0, 256] ] (largeBitSetV 0))"
proof -
  have l: "load [ [0, 64, 0, 256] ] (largeBitSetV 0) = Some (largeBitSet [0, 64, 0, 256])"
    by (simp add: deref_def)
  have a: "Add_st [ [0, 64, 0, 256] ] (largeBitSetV 0) 5 = Some (largeBitSetV 1, [ [0, 64, 0, 256], [32, 64, 0, 256] ])"
    by code_simp
  have r: "Remove_st [ [0, 64, 0, 256] ] (largeBitSetV 0) 200 = Some (largeBitSetV 1, [ [0, 64, 0, 256], [0, 64] ])"
    by code_simp
  from Add_Remove_leave_receiver_unchanged [OF l, of 5]
  have "\<exists>T h'. Add_st [ [0, 64, 0, 256] ] (largeBitSetV 0) 5 = Some (T, h')
         \<and> load h' (largeBitSetV 0) = load [ [0, 64, 0, 256] ] (largeBitSetV 0)" by blast
  moreover from Add_Remove_leave_receiver_unchanged [OF l, of 200]
  have "\<exists>T h'. Remove_st [ [0, 64, 0, 256] ] (largeBitSetV 0) 200 = Some (T, h')
         \<and> load h' (largeBitSetV 0) = load [ [0, 64, 0, 256] ] (largeBitSetV 0)" by blast
  ultimately show ?thesis using l a r by (simp only: simp_thms)
qed

section \<open>Values produced by the public operations\<close>

lemma Add_all_invariant:
  "trimmed s \<and> addressable s \<Longrightarrow> Add_all s bitIndices = Some t \<Longrightarrow> trimmed t \<and> addressable t"
proof (induction bitIndices arbitrary: s)
  case Nil
  then show ?case by simp
next
  case (Cons i bitIndices)
  from Add_total [of s i] obtain u where u: "Add s i = Some u" by blast
  with Cons.prems have "Add_all u bitIndices = Some t" by simp
  moreover from Cons.prems(1) u have "trimmed u \<and> addressable u"
    by (blast intro: Add_trimmed Add_addressable)
  ultimately show ?case by (rule Cons.IH [rotated])
qed

lemma With_invariant:
  assumes "trimmed (Build bld) \<and> addressable (Build bld)" "With bld i = Some bld'"
  shows "trimmed (Build bld') \<and> addressable (Build bld')"
proof -
  from With_Build [of bld i] assms(2) have "Add (Build bld) i = Some (Build bld')" by simp
  with assms(1) show ?thesis by (blast intro: Add_trimmed Add_addressable)
qed

lemma WithMany_invariant:
  assumes "trimmed (Build bld) \<and> addressable (Build bld)" "WithMany bld bitIndices = Some bld'"
  shows "trimmed (Build bld') \<and> addressable (Build bld')"
proof -
  from WithMany_Build [of bld bitIndices] assms(2)
  have "Add_all (Build bld) bitIndices = Some (Build bld')" by simp
  with assms(1) show ?thesis by (rule Add_all_invariant)
qed

lemma produced_invariant:
  assumes "cap \<le> 64"
  shows "produced cap s \<Longrightarrow> trimmed s \<and> addressable s"
    and "built cap bld \<Longrightarrow> trimmed (Build bld) \<and> addressable (Build bld)"
proof (induction rule: produced_built.inducts)
  case prod_New
  show ?case by (simp add: New_def)
next
  case (prod_Add s i t)
  then show ?case by (blast intro: Add_trimmed Add_addressable)
next
  case (prod_Remove s i t)
  then show ?case by (blast intro: Remove_trimmed Remove_addressable)
next
  case (prod_Build bld)
  then show ?case by simp
next
  case (built_NewBuilder minCapacity bld)
  with assms have "sint minCapacity \<le> 64" by simp
  with built_NewBuilder show ?case by (auto simp add: NewBuilder_small)
next
  case (built_With bld i bld')
  then show ?case using With_invariant [of bld i bld'] by blast
next
  case (built_WithMany bld bitIndices bld')
  then show ?case using WithMany_invariant [of bld bitIndices bld'] by blast
qed

text \<open>
  Claim C1, as amended. Every slice-form set produced by \<^verbatim>\<open>New\<close>, \<^verbatim>\<open>Add\<close>,
  \<^verbatim>\<open>Remove\<close> and by builders that start from \<^verbatim>\<open>NewBuilder(minCapacity)\<close> with
  \<open>minCapacity \<le> 64\<close> (through \<^verbatim>\<open>With\<close>, \<^verbatim>\<open>WithMany\<close> and \<^verbatim>\<open>Build\<close>) has at least two
  words and a last word that is not zero, and has a member from 64 on: it is neither
  the empty set nor a set that fits a single word.
\<close>

theorem produced_slice_trimmed:
  assumes "produced 64 s"
  shows "case s of bitSet64 w \<Rightarrow> True
     | largeBitSet b \<Rightarrow> 2 \<le> length b \<and> last b \<noteq> 0 \<and> (\<exists>k. 64 \<le> k \<and> Has s k = Some True)"
proof (cases s)
  case (bitSet64 w)
  then show ?thesis by simp
next
  case (largeBitSet b)
  from produced_invariant(1) [OF order_refl assms] have inv: "trimmed s" "addressable s" by simp_all
  from is_large_iff_member [OF inv] largeBitSet
  have "\<exists>k. 64 \<le> k \<and> Has s k = Some True" by simp
  with inv(1) largeBitSet show ?thesis by simp
qed

theorem produced_slice_trimmed_witness:
  "produced 64 (largeBitSet [8, 64, 0, 256])
   \<and> 2 \<le> length [8, 64, 0, 256 :: uint64] \<and> last [8, 64, 0, 256 :: uint64] \<noteq> 0
   \<and> (\<exists>k. 64 \<le> k \<and> Has (largeBitSet [8, 64, 0, 256]) k = Some True)"
proof -
  have n: "NewBuilder 0 = Some (bitSet64_Builder 0)" by code_simp
  have w: "WithMany (bitSet64_Builder 0) [3, 200, 70, 3] = Some (bitSetBuilder [8, 64, 0, 256])"
    by code_simp
  have "built 64 (bitSet64_Builder 0)" by (rule built_NewBuilder [OF _ n]) simp
  then have "built 64 (bitSetBuilder [8, 64, 0, 256])" using w by (rule built_WithMany)
  then have "produced 64 (Build (bitSetBuilder [8, 64, 0, 256]))" by (rule prod_Build)
  then have p: "produced 64 (largeBitSet [8, 64, 0, 256])" by simp
  from produced_slice_trimmed [OF p] p show ?thesis by simp
qed

text \<open>
  Claim C1 as stated, for every public operation, fails on a builder that starts above
  64: \<^verbatim>\<open>NewBuilder(100)\<close> allocates two zero words and \<^verbatim>\<open>Build\<close> returns them as
  they are, a slice whose last word is zero and which stands for the empty set.
\<close>

theorem builder_slice_untrimmed_counterexample:
  "NewBuilder 100 = Some (bitSetBuilder [0, 0])
   \<and> Build (bitSetBuilder [0, 0]) = largeBitSet [0, 0]
   \<and> produced 100 (largeBitSet [0, 0])
   \<and> last [0, 0 :: uint64] = 0
   \<and> Has (largeBitSet [0, 0]) 64 = Some False"
proof -
  have n: "NewBuilder 100 = Some (bitSetBuilder [0, 0])" by code_simp
  have b: "Build (bitSetBuilder [0, 0]) = largeBitSet [0, 0]" by simp
  have "built 100 (bitSetBuilder [0, 0])" by (rule built_NewBuilder [OF _ n]) simp
  then have "produced 100 (Build (bitSetBuilder [0, 0]))" by (rule prod_Build)
  then have p: "produced 100 (largeBitSet [0, 0])" by simp
  have h: "Has (largeBitSet [0, 0]) 64 = Some False" by code_simp
  from n b p h show ?thesis by simp
qed

end
